theory Spec2Isabelle
  imports Main "HOL-Library.Word"
begin

unbundle bit_operations_syntax

text \<open>
  A model of \<open>utf8console.h\<close>: the stream buffer \<open>utf8_on_wide_out\<close>, which decodes UTF-8
  bytes into wide characters, and the guard \<open>con_transcoder\<close>, which puts such a buffer
  under \<open>std::cout\<close> and \<open>std::cerr\<close> for the time it lives. The definitions come first,
  then the properties: of the decoder, then of the guard.
\<close>

section \<open>The decoder: \<open>utf8_on_wide_out\<close>\<close>

text \<open>
  \<open>utf8_on_wide_out\<close> is a \<open>std::streambuf\<close> over bytes that forwards decoded wide units to
  a wrapped \<open>std::wstreambuf\<close>. Its own state is the pair of fields \<open>left\<close> (an \<open>int\<close>) and
  \<open>point\<close> (a \<open>uint32_t\<close>). The only arithmetic on \<open>left\<close> is a decrement of a positive
  value, so it is an \<open>int\<close> here; \<open>point\<close> is a 32-bit word, whose shift wraps.
\<close>

type_synonym char_type = "8 word"
type_synonym uint32_t = "32 word"

record utf8_on_wide_out =
  left :: int
  point :: uint32_t

text \<open>
  The constructor initialises \<open>left\<close> to \<open>-1\<close> and leaves \<open>point\<close> without an initialiser:
  its first value is whatever the storage holds, the parameter \<open>p0\<close>.
\<close>

definition utf8_on_wide_out_init :: "uint32_t \<Rightarrow> utf8_on_wide_out" where
  "utf8_on_wide_out_init p0 = \<lparr>left = - 1, point = p0\<rparr>"

text \<open>
  The wrapped wide stream buffer \<open>m_out\<close> is an external collaborator. It is a state \<open>'s\<close>
  with the operation \<open>sputc\<close>, which takes a wide character and answers whether the write
  succeeded (\<open>True\<close>: the result was not \<open>eof\<close>) together with the buffer afterwards.
  The member function \<open>output\<close> is \<open>output_ch\<close> here.
  \<open>wsz\<close> is \<open>sizeof(wchar_t)\<close>. A wide character travels as a 32-bit value, of which
  \<open>to_char_type\<close> keeps the low \<open>8 * wsz\<close> bits.
\<close>

type_synonym 's sputc = "'s \<Rightarrow> uint32_t \<Rightarrow> bool \<times> 's"

definition to_char_type :: "nat \<Rightarrow> uint32_t \<Rightarrow> uint32_t" where
  "to_char_type wsz ch = take_bit (8 * wsz) ch"

definition output_ch :: "nat \<Rightarrow> 's sputc \<Rightarrow> 's \<Rightarrow> uint32_t \<Rightarrow> bool \<times> 's" where
  "output_ch wsz sputc m_out ch = sputc m_out (to_char_type wsz ch)"

text \<open>
  The chain of \<open>else if\<close> of \<open>output_raw\<close> that a byte with its top bit set goes through.
\<close>

definition fold_byte :: "utf8_on_wide_out \<Rightarrow> char_type \<Rightarrow> utf8_on_wide_out" where
  "fold_byte d ch =
     (if ch AND 0xC0 = 0x80 \<and> left d > 0 then
        \<lparr>left = left d - 1, point = ucast (ch AND 0x3F) OR push_bit 6 (point d)\<rparr>
      else if ch AND 0xE0 = 0xC0 then \<lparr>left = 1, point = ucast (ch AND 0x1F)\<rparr>
      else if ch AND 0xF0 = 0xE0 then \<lparr>left = 2, point = ucast (ch AND 0x0F)\<rparr>
      else if ch AND 0xF8 = 0xF0 then \<lparr>left = 3, point = ucast (ch AND 0x07)\<rparr>
      else d\<lparr>left := - 1\<rparr>)"

text \<open>
  The block under \<open>if (left == 0)\<close>: \<open>left\<close> is reset first, then the code point is written
  as one unit or as a surrogate pair, or not at all. The subtraction of \<open>0x10000\<close> is on the
  variable \<open>point\<close> itself. The first component is \<open>False\<close> where the source leaves the loop
  with \<open>break\<close>.
\<close>

definition emit_point ::
  "nat \<Rightarrow> 's sputc \<Rightarrow> utf8_on_wide_out \<Rightarrow> 's \<Rightarrow> bool \<times> utf8_on_wide_out \<times> 's" where
  "emit_point wsz sputc d m_out =
     (let d1 = d\<lparr>left := - 1\<rparr> in
      if 4 \<le> wsz \<or> point d1 \<le> 0xD7FF \<or> (0xE000 \<le> point d1 \<and> point d1 \<le> 0xFFFF) then
        (case output_ch wsz sputc m_out (point d1) of (ok, out1) \<Rightarrow> (ok, d1, out1))
      else if 0x10000 \<le> point d1 \<and> point d1 \<le> 0x10FFFF then
        (let d2 = d1\<lparr>point := point d1 - 0x10000\<rparr> in
         case output_ch wsz sputc m_out (drop_bit 10 (point d2) + 0xD800) of
           (False, out1) \<Rightarrow> (False, d2, out1)
         | (True, out1) \<Rightarrow>
             (case output_ch wsz sputc out1 ((point d2 AND 0x3FF) + 0xDC00) of
                (ok, out2) \<Rightarrow> (ok, d2, out2)))
      else (True, d1, m_out))"

text \<open>
  One turn of the \<open>while\<close> loop of \<open>output_raw\<close>, for the byte \<open>ch\<close>. The first component
  is \<open>True\<close> when the loop goes on to the next byte and \<open>False\<close> when it is left by \<open>break\<close>,
  which happens exactly after a failed \<open>output\<close>.
\<close>

definition decode_byte ::
  "nat \<Rightarrow> 's sputc \<Rightarrow> utf8_on_wide_out \<Rightarrow> 's \<Rightarrow> char_type \<Rightarrow> bool \<times> utf8_on_wide_out \<times> 's" where
  "decode_byte wsz sputc d m_out ch =
     (if ch AND 0x80 = 0 then
        (case output_ch wsz sputc m_out (ucast ch) of (ok, out1) \<Rightarrow> (ok, d\<lparr>left := - 1\<rparr>, out1))
      else
        (let d1 = fold_byte d ch in
         if left d1 = 0 then emit_point wsz sputc d1 m_out else (True, d1, m_out)))"

text \<open>
  The loop over the buffer. The count is the number of bytes read: \<open>start\<close> is advanced
  before the byte is looked at, so a byte whose write failed is counted.
\<close>

fun output_raw_loop ::
  "nat \<Rightarrow> 's sputc \<Rightarrow> utf8_on_wide_out \<Rightarrow> 's \<Rightarrow> char_type list \<Rightarrow> nat \<times> utf8_on_wide_out \<times> 's" where
  "output_raw_loop wsz sputc d m_out [] = (0, d, m_out)"
| "output_raw_loop wsz sputc d m_out (ch # rest) =
     (case decode_byte wsz sputc d m_out ch of
        (True, d1, out1) \<Rightarrow>
          (case output_raw_loop wsz sputc d1 out1 rest of (n, r) \<Rightarrow> (Suc n, r))
      | (False, d1, out1) \<Rightarrow> (1, d1, out1))"

text \<open>
  \<open>output_raw\<close> returns \<open>start - first\<close> as an \<open>int\<close>: the count narrowed to 32 bits, signed.
\<close>

definition narrow_int :: "nat \<Rightarrow> int" where
  "narrow_int n = sint (word_of_nat n :: 32 word)"

definition output_raw ::
  "nat \<Rightarrow> 's sputc \<Rightarrow> utf8_on_wide_out \<Rightarrow> 's \<Rightarrow> char_type list \<Rightarrow> int \<times> utf8_on_wide_out \<times> 's" where
  "output_raw wsz sputc d m_out buf =
     (case output_raw_loop wsz sputc d m_out buf of (n, r) \<Rightarrow> (narrow_int n, r))"

definition xsputn ::
  "nat \<Rightarrow> 's sputc \<Rightarrow> utf8_on_wide_out \<Rightarrow> 's \<Rightarrow> char_type list \<Rightarrow> int \<times> utf8_on_wide_out \<times> 's" where
  "xsputn wsz sputc d m_out s = output_raw wsz sputc d m_out s"

text \<open>
  \<open>overflow\<close> takes an \<open>int_type\<close>; \<open>eof\<close> is \<open>-1\<close>, and \<open>to_char_type\<close> keeps the low byte.
\<close>

definition eof :: int where
  "eof = - 1"

definition overflow ::
  "nat \<Rightarrow> 's sputc \<Rightarrow> utf8_on_wide_out \<Rightarrow> 's \<Rightarrow> int \<Rightarrow> int \<times> utf8_on_wide_out \<times> 's" where
  "overflow wsz sputc d m_out ch =
     (if ch \<noteq> eof then
        (let c = (word_of_int ch :: char_type) in
         if c AND 0x80 = 0 then
           (case output_ch wsz sputc m_out (ucast c) of
              (ok, out1) \<Rightarrow> (if ok then 0 else eof, d\<lparr>left := - 1\<rparr>, out1))
         else
           (case output_raw wsz sputc d m_out [c] of
              (n, r) \<Rightarrow> (if n = 1 then 0 else eof, r)))
      else (0, d, m_out))"

text \<open>
  A caller that writes a text in several pieces calls \<open>xsputn\<close> once for each piece, on the
  same object and the same wide stream buffer. The results are the values returned, in order.
\<close>

fun feed ::
  "nat \<Rightarrow> 's sputc \<Rightarrow> utf8_on_wide_out \<Rightarrow> 's \<Rightarrow> char_type list list \<Rightarrow>
     int list \<times> utf8_on_wide_out \<times> 's" where
  "feed wsz sputc d m_out [] = ([], d, m_out)"
| "feed wsz sputc d m_out (buf # bufs) =
     (case xsputn wsz sputc d m_out buf of
        (n, d1, out1) \<Rightarrow> (case feed wsz sputc d1 out1 bufs of (ns, r) \<Rightarrow> (n # ns, r)))"

section \<open>Vocabulary for the properties of the decoder\<close>

text \<open>
  The loop seen from outside: \<open>run_bytes\<close> is the state after every byte of a list went
  through the body of the loop, and \<open>unbroken\<close> says that no byte of the list made the
  loop stop, that is, no write failed.
\<close>

fun run_bytes ::
  "nat \<Rightarrow> 's sputc \<Rightarrow> utf8_on_wide_out \<Rightarrow> 's \<Rightarrow> char_type list \<Rightarrow> utf8_on_wide_out \<times> 's" where
  "run_bytes wsz sputc d m_out [] = (d, m_out)"
| "run_bytes wsz sputc d m_out (ch # rest) =
     (case decode_byte wsz sputc d m_out ch of (ok, d1, out1) \<Rightarrow> run_bytes wsz sputc d1 out1 rest)"

fun unbroken :: "nat \<Rightarrow> 's sputc \<Rightarrow> utf8_on_wide_out \<Rightarrow> 's \<Rightarrow> char_type list \<Rightarrow> bool" where
  "unbroken wsz sputc d m_out [] = True"
| "unbroken wsz sputc d m_out (ch # rest) =
     (case decode_byte wsz sputc d m_out ch of (ok, d1, out1) \<Rightarrow> ok \<and> unbroken wsz sputc d1 out1 rest)"

text \<open>
  The bytes of UTF-8 by their leading bits. A continuation byte is \<open>10xxxxxx\<close>; a lead byte
  is \<open>110xxxxx\<close>, \<open>1110xxxx\<close> or \<open>11110xxx\<close>, announces one, two or three continuation
  bytes and carries the first payload bits; the value of a sequence is its payload bits,
  six from each continuation byte.
\<close>

definition is_cont :: "char_type \<Rightarrow> bool" where
  "is_cont ch \<longleftrightarrow> ch AND 0xC0 = 0x80"

definition lead_need :: "char_type \<Rightarrow> nat option" where
  "lead_need ch =
     (if ch AND 0xE0 = 0xC0 then Some 1
      else if ch AND 0xF0 = 0xE0 then Some 2
      else if ch AND 0xF8 = 0xF0 then Some 3
      else None)"

definition lead_payload :: "char_type \<Rightarrow> uint32_t" where
  "lead_payload ch =
     (if ch AND 0xE0 = 0xC0 then ucast (ch AND 0x1F)
      else if ch AND 0xF0 = 0xE0 then ucast (ch AND 0x0F)
      else ucast (ch AND 0x07))"

definition seq_value :: "char_type \<Rightarrow> char_type list \<Rightarrow> uint32_t" where
  "seq_value l cs = foldl (\<lambda>acc c. ucast (c AND 0x3F) OR push_bit 6 acc) (lead_payload l) cs"

text \<open>
  The encoding of a code point as the standard defines it: one byte below \<open>0x80\<close>, two
  below \<open>0x800\<close>, three below \<open>0x10000\<close>, four from there on.
\<close>

definition utf8_encode :: "uint32_t \<Rightarrow> char_type list" where
  "utf8_encode p =
     (if p < 0x80 then [ucast p]
      else if p < 0x800 then
        [0xC0 OR ucast (drop_bit 6 p), 0x80 OR ucast (p AND 0x3F)]
      else if p < 0x10000 then
        [0xE0 OR ucast (drop_bit 12 p), 0x80 OR ucast (drop_bit 6 p AND 0x3F),
         0x80 OR ucast (p AND 0x3F)]
      else
        [0xF0 OR ucast (drop_bit 18 p), 0x80 OR ucast (drop_bit 12 p AND 0x3F),
         0x80 OR ucast (drop_bit 6 p AND 0x3F), 0x80 OR ucast (p AND 0x3F)])"

text \<open>
  The sequence in progress after the bytes \<open>hist\<close>: the lead byte and the continuation
  bytes at the end of \<open>hist\<close>, when the lead byte asks for more of them than have come.
\<close>

definition in_progress :: "char_type list \<Rightarrow> (char_type \<times> char_type list) option" where
  "in_progress hist =
     (let cs = rev (takeWhile is_cont (rev hist)) in
      case dropWhile is_cont (rev hist) of
        [] \<Rightarrow> None
      | l # _ \<Rightarrow>
          (case lead_need l of
             None \<Rightarrow> None
           | Some n \<Rightarrow> if length cs < n then Some (l, cs) else None))"

definition decoder_inv :: "char_type list \<Rightarrow> utf8_on_wide_out \<Rightarrow> bool" where
  "decoder_inv hist d =
     (case in_progress hist of
        None \<Rightarrow> left d = - 1
      | Some (l, cs) \<Rightarrow>
          (case lead_need l of
             None \<Rightarrow> False
           | Some n \<Rightarrow> left d = int n - int (length cs) \<and> point d = seq_value l cs))"

text \<open>
  The wide units of a code point: the code point itself where \<open>wchar_t\<close> has four bytes
  or the code point is below \<open>0x10000\<close>, its UTF-16 surrogate pair otherwise. \<open>put_all\<close>
  writes units in order and stops at the first that is refused.
\<close>

definition wide_units :: "nat \<Rightarrow> uint32_t \<Rightarrow> uint32_t list" where
  "wide_units wsz p =
     (if 4 \<le> wsz \<or> p < 0x10000 then [p]
      else [drop_bit 10 (p - 0x10000) + 0xD800, ((p - 0x10000) AND 0x3FF) + 0xDC00])"

fun put_all :: "'s sputc \<Rightarrow> 's \<Rightarrow> uint32_t list \<Rightarrow> bool \<times> 's" where
  "put_all sputc m_out [] = (True, m_out)"
| "put_all sputc m_out (u # us) =
     (case sputc m_out u of
        (True, out1) \<Rightarrow> put_all sputc out1 us
      | (False, out1) \<Rightarrow> (False, out1))"





section \<open>The scope guard: \<open>con_transcoder\<close>\<close>

text \<open>
  The guard works on the state of the process: the stream buffers that \<open>std::cout\<close>,
  \<open>std::cerr\<close>, \<open>std::wcout\<close> and \<open>std::wcerr\<close> point to, the objects those pointers
  refer to, the function-local \<open>static bool prepared\<close>, and the locales. A pointer is a
  number, \<open>0\<close> for \<open>nullptr\<close>. Of a stream buffer object only its dynamic type matters to
  the guard: it is a \<open>utf8_on_wide_out\<close> (with its \<open>m_out\<close>) or something else. \<open>new\<close>
  takes the address after \<open>brk\<close>. The calls made to the outside (\<open>_setmode\<close>, \<open>pubsync\<close>)
  are kept in \<open>calls\<close>, in order.
\<close>

datatype streambuf = Other_streambuf | Utf8_on_wide_out nat

datatype call = Setmode_stdout | Setmode_stderr | Pubsync nat

record process =
  prepared :: bool
  cout_rdbuf :: nat
  cerr_rdbuf :: nat
  wcout_rdbuf :: nat
  wcerr_rdbuf :: nat
  heap :: "nat \<Rightarrow> streambuf option"
  brk :: nat
  c_locale :: string
  wcout_locale :: string
  wcerr_locale :: string
  calls :: "call list"

record con_transcoder =
  m_coutBuf :: nat
  m_cerrBuf :: nat

text \<open>
  \<open>prepare_console\<close> has two bodies, chosen with \<open>translate\<close> by the preprocessor: with
  \<open>_WIN32\<close> it sets the mode of \<open>stdout\<close> and \<open>stderr\<close>, otherwise it imbues \<open>std::wcout\<close>
  and \<open>std::wcerr\<close> with the locale that \<open>setlocale(LC_ALL, nullptr)\<close> names.
\<close>

definition prepare_console :: "bool \<Rightarrow> process \<Rightarrow> process" where
  "prepare_console translate s =
     (if translate then s\<lparr>calls := calls s @ [Setmode_stdout, Setmode_stderr]\<rparr>
      else (let curLocale = c_locale s in s\<lparr>wcout_locale := curLocale, wcerr_locale := curLocale\<rparr>))"

text \<open>\<open>dynamic_cast<utf8_on_wide_out*>(p)\<close> is not null.\<close>

definition is_utf8_on_wide_out :: "process \<Rightarrow> nat \<Rightarrow> bool" where
  "is_utf8_on_wide_out s p =
     (p \<noteq> 0 \<and> (case heap s p of Some (Utf8_on_wide_out m) \<Rightarrow> True | _ \<Rightarrow> False))"

text \<open>\<open>new utf8_on_wide_out(wrapped)\<close>.\<close>

definition new_utf8_on_wide_out :: "nat \<Rightarrow> process \<Rightarrow> nat \<times> process" where
  "new_utf8_on_wide_out wrapped s =
     (let p = Suc (brk s) in (p, s\<lparr>heap := (heap s)(p \<mapsto> Utf8_on_wide_out wrapped), brk := p\<rparr>))"

text \<open>
  The constructor. The result is \<open>None\<close> where the source calls \<open>pubsync\<close> through a
  pointer that is null or refers to no object, which the language leaves undefined.
  The two blocks for \<open>std::cout\<close> and \<open>std::cerr\<close> are \<open>install_cout\<close> and
  \<open>install_cerr\<close>.
\<close>

definition install_cout :: "con_transcoder \<Rightarrow> process \<Rightarrow> (con_transcoder \<times> process) option" where
  "install_cout g s =
     (if \<not> is_utf8_on_wide_out s (cout_rdbuf s) then
        (if cout_rdbuf s = 0 \<or> heap s (cout_rdbuf s) = None then None
         else
           (let s1 = s\<lparr>calls := calls s @ [Pubsync (cout_rdbuf s)]\<rparr>;
                (p, s2) = new_utf8_on_wide_out (wcout_rdbuf s1) s1
            in Some (g\<lparr>m_coutBuf := cout_rdbuf s2\<rparr>, s2\<lparr>cout_rdbuf := p\<rparr>)))
      else Some (g, s))"

definition install_cerr :: "con_transcoder \<Rightarrow> process \<Rightarrow> (con_transcoder \<times> process) option" where
  "install_cerr g s =
     (if \<not> is_utf8_on_wide_out s (cerr_rdbuf s) then
        (if cerr_rdbuf s = 0 \<or> heap s (cerr_rdbuf s) = None then None
         else
           (let s1 = s\<lparr>calls := calls s @ [Pubsync (cerr_rdbuf s)]\<rparr>;
                (p, s2) = new_utf8_on_wide_out (wcerr_rdbuf s1) s1
            in Some (g\<lparr>m_cerrBuf := cerr_rdbuf s2\<rparr>, s2\<lparr>cerr_rdbuf := p\<rparr>)))
      else Some (g, s))"

definition con_transcoder_ctor :: "bool \<Rightarrow> process \<Rightarrow> (con_transcoder \<times> process) option" where
  "con_transcoder_ctor translate s =
     (let g = \<lparr>m_coutBuf = 0, m_cerrBuf = 0\<rparr> in
      if \<not> translate then Some (g, s)
      else
        (let s1 = (if \<not> prepared s then (prepare_console translate s)\<lparr>prepared := True\<rparr> else s)
         in case install_cout g s1 of
              None \<Rightarrow> None
            | Some (g1, s2) \<Rightarrow> install_cerr g1 s2))"

definition con_transcoder_dtor :: "con_transcoder \<Rightarrow> process \<Rightarrow> process" where
  "con_transcoder_dtor g s =
     (let s1 = (if m_coutBuf g \<noteq> 0 then s\<lparr>cout_rdbuf := m_coutBuf g\<rparr> else s)
      in if m_cerrBuf g \<noteq> 0 then s1\<lparr>cerr_rdbuf := m_cerrBuf g\<rparr> else s1)"

text \<open>
  The move constructor and the move assignment are defaulted: each member is moved, and to
  move a pointer is to copy it. The first component is the object that receives, the
  second is the object moved from, afterwards. \<open>make_utf8_output\<close> returns a temporary;
  it is modelled with the copy elided, so that it is the constructor.
\<close>

definition move_construct :: "con_transcoder \<Rightarrow> con_transcoder \<times> con_transcoder" where
  "move_construct other =
     (\<lparr>m_coutBuf = m_coutBuf other, m_cerrBuf = m_cerrBuf other\<rparr>, other)"

definition move_assign :: "con_transcoder \<Rightarrow> con_transcoder \<Rightarrow> con_transcoder \<times> con_transcoder" where
  "move_assign this other =
     (this\<lparr>m_coutBuf := m_coutBuf other, m_cerrBuf := m_cerrBuf other\<rparr>, other)"

definition make_utf8_output :: "bool \<Rightarrow> process \<Rightarrow> (con_transcoder \<times> process) option" where
  "make_utf8_output translate s = con_transcoder_ctor translate s"

text \<open>
  A program uses guards through these operations, on the guards it holds: it constructs a
  new one, destroys the one at an index, move-constructs a new one from the one at an
  index, or move-assigns to the one at the first index from the one at the second. An
  operation on a guard that does not exist is no program (\<open>None\<close>).
\<close>

datatype guard_op = Construct | Destroy nat | Move_construct nat | Move_assign nat nat

fun run_op ::
  "bool \<Rightarrow> guard_op \<Rightarrow> con_transcoder list \<times> process \<Rightarrow> (con_transcoder list \<times> process) option" where
  "run_op translate Construct (gs, s) =
     (case con_transcoder_ctor translate s of
        None \<Rightarrow> None
      | Some (g, s1) \<Rightarrow> Some (gs @ [g], s1))"
| "run_op translate (Destroy i) (gs, s) =
     (if i < length gs then Some (take i gs @ drop (Suc i) gs, con_transcoder_dtor (gs ! i) s)
      else None)"
| "run_op translate (Move_construct i) (gs, s) =
     (if i < length gs then
        (case move_construct (gs ! i) of (g, other) \<Rightarrow> Some (gs[i := other] @ [g], s))
      else None)"
| "run_op translate (Move_assign i j) (gs, s) =
     (if i < length gs \<and> j < length gs then
        (case move_assign (gs ! i) (gs ! j) of (g, other) \<Rightarrow> Some (gs[i := g, j := other], s))
      else None)"

fun run_ops ::
  "bool \<Rightarrow> guard_op list \<Rightarrow> con_transcoder list \<times> process \<Rightarrow> (con_transcoder list \<times> process) option" where
  "run_ops translate [] st = Some st"
| "run_ops translate (op # ops) st =
     (case run_op translate op st of None \<Rightarrow> None | Some st1 \<Rightarrow> run_ops translate ops st1)"

text \<open>How many times the body of \<open>prepare_console\<close> for \<open>_WIN32\<close> has run.\<close>

definition prepare_runs :: "process \<Rightarrow> nat" where
  "prepare_runs s = count_list (calls s) Setmode_stdout"

text \<open>
  A process as it starts: the four standard streams have their own buffers, which are not
  decoders, nothing is prepared and nothing has been called. \<open>redirected\<close> is that
  process after one guard was constructed with \<open>translate\<close>. \<open>posix_startup\<close> is a process
  on a platform without translation, after \<open>setlocale(LC_ALL, "en_US.UTF-8")\<close>.
\<close>

definition startup :: process where
  "startup =
     \<lparr>prepared = False, cout_rdbuf = 1, cerr_rdbuf = 2, wcout_rdbuf = 3, wcerr_rdbuf = 4,
      heap = [1 \<mapsto> Other_streambuf, 2 \<mapsto> Other_streambuf, 3 \<mapsto> Other_streambuf,
              4 \<mapsto> Other_streambuf],
      brk = 4, c_locale = ''C'', wcout_locale = ''C'', wcerr_locale = ''C'', calls = []\<rparr>"

definition redirected :: process where
  "redirected =
     \<lparr>prepared = True, cout_rdbuf = 5, cerr_rdbuf = 6, wcout_rdbuf = 3, wcerr_rdbuf = 4,
      heap = [1 \<mapsto> Other_streambuf, 2 \<mapsto> Other_streambuf, 3 \<mapsto> Other_streambuf,
              4 \<mapsto> Other_streambuf, 5 \<mapsto> Utf8_on_wide_out 3, 6 \<mapsto> Utf8_on_wide_out 4],
      brk = 6, c_locale = ''C'', wcout_locale = ''C'', wcerr_locale = ''C'',
      calls = [Setmode_stdout, Setmode_stderr, Pubsync 1, Pubsync 2]\<rparr>"

definition posix_startup :: process where
  "posix_startup = startup\<lparr>c_locale := ''en_US.UTF-8''\<rparr>"

section \<open>Properties of the decoder\<close>

subsection \<open>Bits of bytes and of 32-bit words\<close>

lemma all_less_8:
  "(\<forall>n<8::nat. P n) \<longleftrightarrow> P 0 \<and> P 1 \<and> P 2 \<and> P 3 \<and> P 4 \<and> P 5 \<and> P 6 \<and> P 7"
  by (auto simp add: numeral_eq_Suc All_less_Suc)

lemma all_less_add:
  "(\<forall>n<a + b::nat. P n) \<longleftrightarrow> (\<forall>n<a. P n) \<and> (\<forall>n<b. P (a + n))"
proof (intro iffI conjI allI impI)
  fix n assume h: "(\<forall>n<a. P n) \<and> (\<forall>n<b. P (a + n))" and n: "n < a + b"
  show "P n"
  proof (cases "n < a")
    case True with h show ?thesis by simp
  next
    case False
    with n have "n - a < b" by simp
    with h have "P (a + (n - a))" by blast
    with False show ?thesis by simp
  qed
qed simp_all

lemma all_less_32:
  "(\<forall>n<32::nat. P n) \<longleftrightarrow>
   P 0 \<and> P 1 \<and> P 2 \<and> P 3 \<and> P 4 \<and> P 5 \<and> P 6 \<and> P 7 \<and>
   P 8 \<and> P 9 \<and> P 10 \<and> P 11 \<and> P 12 \<and> P 13 \<and> P 14 \<and> P 15 \<and>
   P 16 \<and> P 17 \<and> P 18 \<and> P 19 \<and> P 20 \<and> P 21 \<and> P 22 \<and> P 23 \<and>
   P 24 \<and> P 25 \<and> P 26 \<and> P 27 \<and> P 28 \<and> P 29 \<and> P 30 \<and> P 31"
  (is "?L \<longleftrightarrow> ?R")
proof -
  have "?L \<longleftrightarrow> (\<forall>n<8 + (8 + (8 + 8))::nat. P n)" by simp
  also have "\<dots> \<longleftrightarrow>
      (\<forall>n<8. P n) \<and> (\<forall>n<8. P (8 + n)) \<and> (\<forall>n<8. P (16 + n)) \<and> (\<forall>n<8. P (24 + n))"
    by (simp only: all_less_add) (simp add: add.assoc [symmetric])
  also have "\<dots> \<longleftrightarrow> ?R"
    unfolding all_less_8 by (simp add: conj_assoc)
  finally show ?thesis .
qed

lemma byte_eq_bits: "a = b \<longleftrightarrow> (\<forall>n<8. bit a n = bit b n)" for a b :: "8 word"
  by (simp add: bit_eq_iff [where ?'a = "8 word"])

lemma word32_eq_bits: "a = b \<longleftrightarrow> (\<forall>n<32. bit a n = bit b n)" for a b :: "32 word"
  by (simp add: bit_eq_iff [where ?'a = "32 word"])

lemmas byte_bits = byte_eq_bits bit_simps all_less_8
lemmas word32_bits = word32_eq_bits bit_simps all_less_32

lemma below_take_bit: "p < 2 ^ n \<Longrightarrow> take_bit n p = p" for p :: "32 word"
  by (simp add: take_bit_eq_mask less_mask_eq)

text \<open>The five classes of a byte, by its leading bits.\<close>

lemma ascii_bits: "ch AND 0x80 = 0 \<longleftrightarrow> \<not> bit ch 7" for ch :: "8 word"
  by (simp add: byte_bits)

lemma cont_bits: "ch AND 0xC0 = 0x80 \<longleftrightarrow> bit ch 7 \<and> \<not> bit ch 6" for ch :: "8 word"
  by (auto simp add: byte_bits)

lemma lead2_bits: "ch AND 0xE0 = 0xC0 \<longleftrightarrow> bit ch 7 \<and> bit ch 6 \<and> \<not> bit ch 5" for ch :: "8 word"
  by (auto simp add: byte_bits)

lemma lead3_bits:
  "ch AND 0xF0 = 0xE0 \<longleftrightarrow> bit ch 7 \<and> bit ch 6 \<and> bit ch 5 \<and> \<not> bit ch 4" for ch :: "8 word"
  by (auto simp add: byte_bits)

lemma lead4_bits:
  "ch AND 0xF8 = 0xF0 \<longleftrightarrow> bit ch 7 \<and> bit ch 6 \<and> bit ch 5 \<and> bit ch 4 \<and> \<not> bit ch 3"
  for ch :: "8 word"
  by (auto simp add: byte_bits)

lemmas class_bits = ascii_bits cont_bits lead2_bits lead3_bits lead4_bits

text \<open>A byte belongs to exactly one class, or to none of them.\<close>

lemma lead_not_cont: "lead_need ch = Some n \<Longrightarrow> \<not> is_cont ch"
  by (auto simp add: lead_need_def is_cont_def class_bits split: if_splits)

lemma lead_need_pos: "lead_need ch = Some n \<Longrightarrow> 0 < n"
  by (auto simp add: lead_need_def split: if_splits)

lemma ascii_not_cont: "ch AND 0x80 = 0 \<Longrightarrow> \<not> is_cont ch"
  by (simp add: is_cont_def class_bits)

lemma ascii_not_lead: "ch AND 0x80 = 0 \<Longrightarrow> lead_need ch = None"
  by (simp add: lead_need_def class_bits)

lemma cont_not_lead: "is_cont ch \<Longrightarrow> lead_need ch = None"
  by (cases "lead_need ch") (auto dest: lead_not_cont)

lemma invalid_not_cont: "ch AND 0xF8 = 0xF8 \<Longrightarrow> \<not> is_cont ch"
  by (auto simp add: is_cont_def class_bits byte_bits)

lemma invalid_not_lead: "ch AND 0xF8 = 0xF8 \<Longrightarrow> lead_need ch = None"
  by (auto simp add: lead_need_def class_bits byte_bits)

lemma byte_classes:
  "ch AND 0x80 = 0 \<or> is_cont ch \<or> (\<exists>n. lead_need ch = Some n) \<or> ch AND 0xF8 = 0xF8"
  for ch :: "8 word"
  by (auto simp add: is_cont_def lead_need_def class_bits byte_bits)

lemma lead_need_le: "lead_need l = Some n \<Longrightarrow> n \<le> 3"
  by (auto simp add: lead_need_def split: if_splits)

subsection \<open>One byte\<close>

lemma decode_byte_ascii:
  "ch AND 0x80 = 0 \<Longrightarrow>
   decode_byte wsz sputc d m_out ch =
     (fst (sputc m_out (to_char_type wsz (ucast ch))), d\<lparr>left := - 1\<rparr>,
      snd (sputc m_out (to_char_type wsz (ucast ch))))"
  by (simp add: decode_byte_def output_ch_def split: prod.split)

lemma decode_byte_lead:
  "lead_need ch = Some n \<Longrightarrow>
   decode_byte wsz sputc d m_out ch = (True, \<lparr>left = int n, point = lead_payload ch\<rparr>, m_out)"
  by (auto simp add: decode_byte_def fold_byte_def lead_need_def lead_payload_def Let_def
      class_bits split: if_splits)

lemma decode_byte_cont:
  "is_cont ch \<Longrightarrow> 1 < left d \<Longrightarrow>
   decode_byte wsz sputc d m_out ch =
     (True, \<lparr>left = left d - 1, point = ucast (ch AND 0x3F) OR push_bit 6 (point d)\<rparr>, m_out)"
  by (auto simp add: decode_byte_def fold_byte_def is_cont_def Let_def class_bits)

lemma decode_byte_last:
  "is_cont ch \<Longrightarrow> left d = 1 \<Longrightarrow>
   decode_byte wsz sputc d m_out ch =
     emit_point wsz sputc \<lparr>left = 0, point = ucast (ch AND 0x3F) OR push_bit 6 (point d)\<rparr> m_out"
  by (auto simp add: decode_byte_def fold_byte_def is_cont_def Let_def class_bits)

lemma decode_byte_stray:
  "is_cont ch \<Longrightarrow> left d \<le> 0 \<Longrightarrow>
   decode_byte wsz sputc d m_out ch = (True, d\<lparr>left := - 1\<rparr>, m_out)"
  by (auto simp add: decode_byte_def fold_byte_def is_cont_def Let_def class_bits)

lemma decode_byte_invalid:
  "ch AND 0xF8 = 0xF8 \<Longrightarrow>
   decode_byte wsz sputc d m_out ch = (True, d\<lparr>left := - 1\<rparr>, m_out)"
  by (auto simp add: decode_byte_def fold_byte_def Let_def class_bits byte_bits)

subsection \<open>The loop\<close>

lemma run_bytes_append:
  "run_bytes wsz sputc d m_out (xs @ ys) =
     (case run_bytes wsz sputc d m_out xs of (d1, out1) \<Rightarrow> run_bytes wsz sputc d1 out1 ys)"
  by (induction xs arbitrary: d m_out) (auto split: prod.splits)

lemma unbroken_append:
  "unbroken wsz sputc d m_out (xs @ ys) \<longleftrightarrow>
     unbroken wsz sputc d m_out xs \<and>
     (case run_bytes wsz sputc d m_out xs of (d1, out1) \<Rightarrow> unbroken wsz sputc d1 out1 ys)"
  by (induction xs arbitrary: d m_out) (auto split: prod.splits)

lemma loop_unbroken:
  "unbroken wsz sputc d m_out bs \<Longrightarrow>
   output_raw_loop wsz sputc d m_out bs = (length bs, run_bytes wsz sputc d m_out bs)"
  by (induction bs arbitrary: d m_out) (auto split: prod.splits)


lemma loop_unbroken_snoc:
  "unbroken wsz sputc d m_out bs \<Longrightarrow>
   output_raw_loop wsz sputc d m_out (bs @ [ch]) =
     (Suc (length bs), run_bytes wsz sputc d m_out (bs @ [ch]))"
  by (induction bs arbitrary: d m_out) (auto split: prod.splits bool.splits)

lemma loop_butlast:
  "unbroken wsz sputc d m_out (butlast bs) \<Longrightarrow>
   output_raw_loop wsz sputc d m_out bs = (length bs, run_bytes wsz sputc d m_out bs)"
proof (cases bs rule: rev_cases)
  case Nil
  then show ?thesis by simp
next
  case (snoc xs x)
  assume "unbroken wsz sputc d m_out (butlast bs)"
  with snoc show ?thesis by (simp add: loop_unbroken_snoc)
qed

lemma narrow_int_small: "n < 2 ^ 31 \<Longrightarrow> narrow_int n = int n"
  unfolding narrow_int_def
  by (simp add: signed_of_nat signed_take_bit_int_eq_self take_bit_nat_eq_self)

text \<open>
  Pieces: as long as no write fails before the last byte, writing in pieces is writing at
  once.
\<close>

lemma feed_pieces:
  "unbroken wsz sputc d m_out (butlast (concat bufs)) \<Longrightarrow>
   feed wsz sputc d m_out bufs =
     (map (\<lambda>buf. narrow_int (length buf)) bufs, run_bytes wsz sputc d m_out (concat bufs))"
proof (induction bufs arbitrary: d m_out)
  case Nil
  then show ?case by simp
next
  case (Cons buf bufs)
  obtain d1 out1 where r: "run_bytes wsz sputc d m_out buf = (d1, out1)"
    by (cases "run_bytes wsz sputc d m_out buf")
  show ?case
  proof (cases "concat bufs = []")
    case True
    with Cons.prems have u: "unbroken wsz sputc d m_out (butlast buf)" by simp
    have "unbroken wsz sputc d1 out1 (butlast (concat bufs))" by (simp add: True)
    from Cons.IH [OF this] u r show ?thesis
      by (simp add: True xsputn_def output_raw_def loop_butlast run_bytes_append)
  next
    case False
    then have "butlast (concat (buf # bufs)) = buf @ butlast (concat bufs)"
      by (simp only: concat.simps butlast_append if_False)
    with Cons.prems have "unbroken wsz sputc d m_out (buf @ butlast (concat bufs))"
      by (simp only:)
    with r have u: "unbroken wsz sputc d m_out buf"
      and u1: "unbroken wsz sputc d1 out1 (butlast (concat bufs))"
      by (simp_all add: unbroken_append)
    from Cons.IH [OF u1] u r show ?thesis
      by (simp add: xsputn_def output_raw_def loop_unbroken run_bytes_append)
  qed
qed

subsection \<open>Sequences\<close>

lemma seq_value_snoc:
  "seq_value l (cs @ [c]) = ucast (c AND 0x3F) OR push_bit 6 (seq_value l cs)"
  by (simp add: seq_value_def)

lemma partial_run:
  "lead_need l = Some n \<Longrightarrow> list_all is_cont cs \<Longrightarrow> length cs < n \<Longrightarrow>
   unbroken wsz sputc d m_out (l # cs) \<and>
   run_bytes wsz sputc d m_out (l # cs) =
     (\<lparr>left = int n - int (length cs), point = seq_value l cs\<rparr>, m_out)"
proof (induction cs rule: rev_induct)
  case Nil
  then show ?case by (simp add: decode_byte_lead seq_value_def)
next
  case (snoc c cs)
  then have ih: "unbroken wsz sputc d m_out (l # cs)"
    "run_bytes wsz sputc d m_out (l # cs) =
       (\<lparr>left = int n - int (length cs), point = seq_value l cs\<rparr>, m_out)"
    and c: "is_cont c" and len: "Suc (length cs) < n"
    by simp_all
  from c len have step: "decode_byte wsz sputc \<lparr>left = int n - int (length cs), point = seq_value l cs\<rparr> m_out c
      = (True, \<lparr>left = int n - int (length cs) - 1, point = seq_value l (cs @ [c])\<rparr>, m_out)"
    by (simp add: decode_byte_cont seq_value_snoc)
  have "l # cs @ [c] = (l # cs) @ [c]" by simp
  then show ?case using ih step
    by (simp only: unbroken_append run_bytes_append) simp
qed

lemma complete_run:
  assumes "lead_need l = Some n" "list_all is_cont cs" "length cs = n"
  shows "unbroken wsz sputc d m_out (butlast (l # cs))"
    and "run_bytes wsz sputc d m_out (l # cs) =
      snd (emit_point wsz sputc \<lparr>left = 0, point = seq_value l cs\<rparr> m_out)"
proof -
  from assms have "n \<noteq> 0" by (auto simp: lead_need_def split: if_splits)
  with assms obtain xs c where cs: "cs = xs @ [c]"
    by (cases cs rule: rev_cases) auto
  with assms have xs: "list_all is_cont xs" "length xs < n" and c: "is_cont c" 
    and n: "int n - int (length xs) = 1" by auto
  note p = partial_run [OF assms(1) xs, of wsz sputc d m_out]
  from cs p show "unbroken wsz sputc d m_out (butlast (l # cs))"
    by (simp add: butlast_append)
  have "l # cs = (l # xs) @ [c]" by (simp add: cs)
  then show "run_bytes wsz sputc d m_out (l # cs) =
      snd (emit_point wsz sputc \<lparr>left = 0, point = seq_value l cs\<rparr> m_out)"
    using p c n
    by (simp only: run_bytes_append) (simp add: decode_byte_last cs seq_value_snoc split: prod.splits)
qed

subsection \<open>The encoder\<close>

lemma to_char_type_16:
  fixes p :: "32 word"
  assumes "2 \<le> wsz" "p < 0x10000"
  shows "to_char_type wsz p = p"
proof -
  from assms(2) have "p < 2 ^ 16" by simp
  then have e: "take_bit 16 p = p" by (rule below_take_bit)
  define q where "q = p"
  have pq: "p = take_bit 16 q" by (simp add: q_def e)
  from assms(1) show ?thesis
    unfolding pq to_char_type_def by (intro bit_word_eqI) (auto simp add: bit_simps)
qed

lemma to_char_type_32: "4 \<le> wsz \<Longrightarrow> to_char_type wsz p = p"
  unfolding to_char_type_def by (intro bit_word_eqI) (auto simp add: bit_simps)

lemma encode_1:
  fixes p :: "32 word"
  assumes "p < 0x80"
  shows "utf8_encode p = [ucast p]" "(ucast p :: 8 word) AND 0x80 = 0"
    "ucast (ucast p :: 8 word) = p"
proof -
  from assms have "p < 2 ^ 7" by simp
  then have e: "take_bit 7 p = p" by (rule below_take_bit)
  define q where "q = p"
  have pq: "p = take_bit 7 q" by (simp add: q_def e)
  from assms show "utf8_encode p = [ucast p]" by (simp add: utf8_encode_def)
  show "(ucast p :: 8 word) AND 0x80 = 0" unfolding pq by (simp add: byte_bits)
  show "ucast (ucast p :: 8 word) = p" unfolding pq by (simp add: word32_bits)
qed

lemma encode_2:
  fixes p :: "32 word"
  assumes "0x80 \<le> p" "p < 0x800"
  shows "\<exists>l c. utf8_encode p = [l, c] \<and> lead_need l = Some 1 \<and> is_cont c \<and> seq_value l [c] = p"
proof -
  from assms have "p < 2 ^ 11" by simp
  then have e: "take_bit 11 p = p" by (rule below_take_bit)
  define q where "q = p"
  have pq: "p = take_bit 11 q" by (simp add: q_def e)
  let ?l = "0xC0 OR ucast (drop_bit 6 p) :: 8 word"
  let ?c = "0x80 OR ucast (p AND 0x3F) :: 8 word"
  from assms have "utf8_encode p = [?l, ?c]" by (simp add: utf8_encode_def not_less [symmetric])
  moreover have l: "?l AND 0xE0 = 0xC0" unfolding pq by (simp add: byte_bits)
  then have "lead_need ?l = Some 1" by (simp add: lead_need_def)
  moreover have "is_cont ?c" unfolding is_cont_def by (simp add: byte_bits)
  moreover have "seq_value ?l [?c] = p"
    unfolding seq_value_def lead_payload_def using l
    apply simp
    unfolding pq by (simp add: word32_bits)
  ultimately show ?thesis by blast
qed

lemma encode_3:
  fixes p :: "32 word"
  assumes "0x800 \<le> p" "p < 0x10000"
  shows "\<exists>l c1 c2. utf8_encode p = [l, c1, c2] \<and> lead_need l = Some 2 \<and>
           is_cont c1 \<and> is_cont c2 \<and> seq_value l [c1, c2] = p"
proof -
  from assms have "p < 2 ^ 16" by simp
  then have e: "take_bit 16 p = p" by (rule below_take_bit)
  define q where "q = p"
  have pq: "p = take_bit 16 q" by (simp add: q_def e)
  let ?l = "0xE0 OR ucast (drop_bit 12 p) :: 8 word"
  let ?c1 = "0x80 OR ucast (drop_bit 6 p AND 0x3F) :: 8 word"
  let ?c2 = "0x80 OR ucast (p AND 0x3F) :: 8 word"
  from assms have "\<not> p < 0x80" "\<not> p < 0x800" by unat_arith+
  with assms have "utf8_encode p = [?l, ?c1, ?c2]" by (simp add: utf8_encode_def)
  moreover have l: "?l AND 0xE0 \<noteq> 0xC0" "?l AND 0xF0 = 0xE0"
    unfolding pq by (simp_all add: byte_bits)
  then have "lead_need ?l = Some 2" by (simp add: lead_need_def)
  moreover have "is_cont ?c1" "is_cont ?c2" unfolding is_cont_def by (simp_all add: byte_bits)
  moreover have "seq_value ?l [?c1, ?c2] = p"
    unfolding seq_value_def lead_payload_def using l
    apply simp
    unfolding pq by (simp add: word32_bits)
  ultimately show ?thesis by blast
qed

lemma encode_4:
  fixes p :: "32 word"
  assumes "0x10000 \<le> p" "p < 0x200000"
  shows "\<exists>l c1 c2 c3. utf8_encode p = [l, c1, c2, c3] \<and> lead_need l = Some 3 \<and>
           is_cont c1 \<and> is_cont c2 \<and> is_cont c3 \<and> seq_value l [c1, c2, c3] = p"
proof -
  from assms have "p < 2 ^ 21" by simp
  then have e: "take_bit 21 p = p" by (rule below_take_bit)
  define q where "q = p"
  have pq: "p = take_bit 21 q" by (simp add: q_def e)
  let ?l = "0xF0 OR ucast (drop_bit 18 p) :: 8 word"
  let ?c1 = "0x80 OR ucast (drop_bit 12 p AND 0x3F) :: 8 word"
  let ?c2 = "0x80 OR ucast (drop_bit 6 p AND 0x3F) :: 8 word"
  let ?c3 = "0x80 OR ucast (p AND 0x3F) :: 8 word"
  from assms have "\<not> p < 0x80" "\<not> p < 0x800" "\<not> p < 0x10000" by unat_arith+
  then have "utf8_encode p = [?l, ?c1, ?c2, ?c3]" by (simp add: utf8_encode_def)
  moreover have l: "?l AND 0xE0 \<noteq> 0xC0" "?l AND 0xF0 \<noteq> 0xE0" "?l AND 0xF8 = 0xF0"
    unfolding pq by (simp_all add: byte_bits)
  then have "lead_need ?l = Some 3" by (simp add: lead_need_def)
  moreover have "is_cont ?c1" "is_cont ?c2" "is_cont ?c3"
    unfolding is_cont_def by (simp_all add: byte_bits)
  moreover have "seq_value ?l [?c1, ?c2, ?c3] = p"
    unfolding seq_value_def lead_payload_def using l
    apply simp
    unfolding pq by (simp add: word32_bits)
  ultimately show ?thesis by blast
qed

subsection \<open>What a complete sequence writes\<close>

lemma emit_point_single:
  "4 \<le> wsz \<or> v \<le> 0xD7FF \<or> (0xE000 \<le> v \<and> v \<le> 0xFFFF) \<Longrightarrow>
   emit_point wsz sputc \<lparr>left = 0, point = v\<rparr> m_out =
     (fst (sputc m_out (to_char_type wsz v)), \<lparr>left = - 1, point = v\<rparr>,
      snd (sputc m_out (to_char_type wsz v)))"
  by (simp add: emit_point_def output_ch_def split: prod.split)

lemma run_encode_bmp:
  fixes p :: "32 word"
  assumes w: "2 \<le> wsz" and p: "p \<le> 0xD7FF \<or> (0xE000 \<le> p \<and> p \<le> 0xFFFF)"
  shows "unbroken wsz sputc d m_out (butlast (utf8_encode p))"
    and "run_bytes wsz sputc d m_out (utf8_encode p) =
      (\<lparr>left = - 1, point = (if p < 0x80 then point d else p)\<rparr>, snd (sputc m_out p))"
proof -
  from p have p16: "p < 0x10000" by unat_arith
  note t = to_char_type_16 [OF w p16]
  consider (a) "p < 0x80" | (b) "0x80 \<le> p" "p < 0x800" | (c) "0x800 \<le> p" "p < 0x10000"
    using p16 by unat_arith
  then have "unbroken wsz sputc d m_out (butlast (utf8_encode p)) \<and>
    run_bytes wsz sputc d m_out (utf8_encode p) =
      (\<lparr>left = - 1, point = (if p < 0x80 then point d else p)\<rparr>, snd (sputc m_out p))"
  proof cases
    case a
    from encode_1 [OF a] t a show ?thesis
      by (simp add: decode_byte_ascii)
  next
    case b
    from encode_2 [OF b] obtain l c where e: "utf8_encode p = [l, c]"
      and s: "lead_need l = Some 1" "list_all is_cont [c]" "length [c] = 1" "seq_value l [c] = p"
      by auto
    from complete_run [OF s(1-3), of wsz sputc d m_out] s(4) e b p t show ?thesis
      by (simp add: emit_point_single not_less [symmetric] del: run_bytes.simps unbroken.simps)
  next
    case c
    from encode_3 [OF c] obtain l c1 c2 where e: "utf8_encode p = [l, c1, c2]"
      and s: "lead_need l = Some 2" "list_all is_cont [c1, c2]" "length [c1, c2] = 2"
        "seq_value l [c1, c2] = p"
      by auto
    have "\<not> p < 0x80" using c by unat_arith
    with complete_run [OF s(1-3), of wsz sputc d m_out] s(4) e p t show ?thesis
      by (simp add: emit_point_single del: run_bytes.simps unbroken.simps)
  qed
  then show "unbroken wsz sputc d m_out (butlast (utf8_encode p))"
    and "run_bytes wsz sputc d m_out (utf8_encode p) =
      (\<lparr>left = - 1, point = (if p < 0x80 then point d else p)\<rparr>, snd (sputc m_out p))"
    by simp_all
qed

lemma length_le_concat: "buf \<in> set bufs \<Longrightarrow> length buf \<le> length (concat bufs)"
  by (induction bufs) auto

lemma length_utf8_encode: "length (utf8_encode p) \<le> 4"
  by (simp add: utf8_encode_def)

lemma small_pieces:
  assumes "concat bufs = utf8_encode p"
  shows "map (\<lambda>buf. narrow_int (length buf)) bufs = map (\<lambda>buf. int (length buf)) bufs"
proof (rule map_cong [OF refl])
  fix buf assume "buf \<in> set bufs"
  then have "length buf \<le> length (concat bufs)" by (rule length_le_concat)
  also have "\<dots> \<le> 4" by (simp add: assms length_utf8_encode)
  finally show "narrow_int (length buf) = int (length buf)"
    by (intro narrow_int_small) simp
qed

subsection \<open>Code points of the Basic Multilingual Plane\<close>

text \<open>
  Claim C3. Let \<open>p\<close> be a code point in \<open>[0x0000, 0xD7FF]\<close> or \<open>[0xE000, 0xFFFF]\<close> and let the
  pieces \<open>bufs\<close>, put together, be the UTF-8 encoding of \<open>p\<close>. Written piece by piece with
  \<open>xsputn\<close> to a decoder in its initial state, over wide characters of at least two bytes,
  they make exactly one call of \<open>sputc\<close>, with \<open>p\<close>: the wide stream buffer afterwards
  is the one before after \<open>sputc\<close> of \<open>p\<close>. Every call returns the length of its piece, and
  the decoder is back at \<open>left = -1\<close>. This holds for any wide stream buffer, also one
  that refuses the write.
\<close>

theorem bmp_code_point_one_unit:
  fixes p :: "32 word"
  assumes "2 \<le> wsz" and "p \<le> 0xD7FF \<or> (0xE000 \<le> p \<and> p \<le> 0xFFFF)"
    and "concat bufs = utf8_encode p"
  shows "feed wsz sputc (utf8_on_wide_out_init p0) m_out bufs =
           (map (\<lambda>buf. int (length buf)) bufs,
            \<lparr>left = - 1, point = (if p < 0x80 then p0 else p)\<rparr>,
            snd (sputc m_out p))"
proof -
  from run_encode_bmp [OF assms(1,2), of sputc "utf8_on_wide_out_init p0" m_out] assms(3)
  have u: "unbroken wsz sputc (utf8_on_wide_out_init p0) m_out (butlast (concat bufs))"
    and r: "run_bytes wsz sputc (utf8_on_wide_out_init p0) m_out (concat bufs) =
      (\<lparr>left = - 1, point = (if p < 0x80 then p0 else p)\<rparr>, snd (sputc m_out p))"
    by (simp_all add: utf8_on_wide_out_init_def)
  from feed_pieces [OF u] r small_pieces [OF assms(3)] show ?thesis by simp
qed

theorem bmp_code_point_one_unit_witness:
  "(2::nat) \<le> 2 \<and> ((0x4E16::32 word) \<le> 0xD7FF \<or> (0xE000 \<le> (0x4E16::32 word) \<and> (0x4E16::32 word) \<le> 0xFFFF)) \<and>
   concat [[0xE4], [0xB8, 0x96]] = utf8_encode 0x4E16 \<and>
   feed 2 (\<lambda>s u. (True, s @ [u])) (utf8_on_wide_out_init 0) [] [[0xE4], [0xB8, 0x96]] =
     ([1, 2], \<lparr>left = - 1, point = 0x4E16\<rparr>, [0x4E16])"
proof -
  have h1: "(2::nat) \<le> 2" by simp
  have h2: "(0x4E16::32 word) \<le> 0xD7FF \<or> (0xE000 \<le> (0x4E16::32 word) \<and> (0x4E16::32 word) \<le> 0xFFFF)"
    by simp
  have h3: "concat [[0xE4], [0xB8, 0x96]] = utf8_encode 0x4E16"
    by (simp add: utf8_encode_def)
  from bmp_code_point_one_unit [OF h1 h2 h3, of "\<lambda>s u. (True, s @ [u])" 0 "[]"] h1 h2 h3
  show ?thesis by simp
qed

subsection \<open>Surrogate pairs\<close>

lemma high_surrogate_16:
  fixes p :: "32 word"
  assumes "0x10000 \<le> p" "p \<le> 0x10FFFF"
  shows "drop_bit 10 (p - 0x10000) + 0xD800 < 0x10000"
proof -
  from assms have "p - 0x10000 < 0x100000" by unat_arith
  then have "unat (p - 0x10000) < 1048576" by (simp add: word_less_nat_alt)
  then have "unat (p - 0x10000) div 1024 < 1024" by simp
  then have "drop_bit 10 (p - 0x10000) < 0x400"
    by (simp add: word_less_nat_alt drop_bit_eq_div unat_div)
  then show ?thesis by unat_arith
qed

lemma low_surrogate_16:
  fixes x :: "32 word"
  shows "(x AND 0x3FF) + 0xDC00 < 0x10000"
proof -
  have "x AND 0x3FF \<le> 0x3FF" by (rule word_and_le1)
  then show ?thesis by unat_arith
qed

lemma emit_point_pair:
  fixes v :: "32 word"
  assumes "2 \<le> wsz" "wsz < 4" "0x10000 \<le> v" "v \<le> 0x10FFFF"
  shows "emit_point wsz sputc \<lparr>left = 0, point = v\<rparr> m_out =
     (case sputc m_out (drop_bit 10 (v - 0x10000) + 0xD800) of
        (False, out1) \<Rightarrow> (False, \<lparr>left = - 1, point = v - 0x10000\<rparr>, out1)
      | (True, out1) \<Rightarrow>
          (fst (sputc out1 (((v - 0x10000) AND 0x3FF) + 0xDC00)),
           \<lparr>left = - 1, point = v - 0x10000\<rparr>,
           snd (sputc out1 (((v - 0x10000) AND 0x3FF) + 0xDC00))))"
proof -
  from assms have r: "\<not> v \<le> 0xD7FF" "\<not> (0xE000 \<le> v \<and> v \<le> 0xFFFF)" by unat_arith+
  note h = to_char_type_16 [OF assms(1) high_surrogate_16 [OF assms(3,4)]]
  note l = to_char_type_16 [OF assms(1) low_surrogate_16]
  from assms r show ?thesis
    by (simp add: emit_point_def output_ch_def Let_def h l split: prod.split bool.split)
qed

lemma unbroken_butlast:
  "unbroken wsz sputc d m_out bs \<Longrightarrow> unbroken wsz sputc d m_out (butlast bs)"
proof (cases bs rule: rev_cases)
  case Nil
  then show ?thesis by simp
next
  case (snoc xs x)
  assume "unbroken wsz sputc d m_out bs"
  with snoc show ?thesis by (simp add: unbroken_append)
qed

lemma feed_partial:
  assumes "lead_need l = Some n" "list_all is_cont cs" "length cs < n" "concat bufs = l # cs"
  shows "snd (feed wsz sputc d m_out bufs) =
    (\<lparr>left = int n - int (length cs), point = seq_value l cs\<rparr>, m_out)"
proof -
  note p = partial_run [OF assms(1-3), of wsz sputc d m_out]
  from p have "unbroken wsz sputc d m_out (butlast (concat bufs))"
    by (simp only: assms(4) unbroken_butlast)
  from feed_pieces [OF this] p show ?thesis by (simp only: assms(4) snd_conv)
qed

lemma feed_nothing:
  assumes "concat bufs = []"
  shows "snd (feed wsz sputc d m_out bufs) = (d, m_out)"
proof -
  have "unbroken wsz sputc d m_out (butlast (concat bufs))" by (simp add: assms)
  from feed_pieces [OF this] show ?thesis by (simp add: assms)
qed

lemma concat_take_prefix:
  "concat (take k bufs) = take (length (concat (take k bufs))) (concat bufs)"
proof -
  have "concat bufs = concat (take k bufs) @ concat (drop k bufs)"
    by (metis append_take_drop_id concat_append)
  then show ?thesis by (metis append_eq_conv_conj)
qed

text \<open>Before the last byte of a sequence has come, nothing is written.\<close>

lemma feed_incomplete:
  assumes l: "lead_need l = Some n" and cs: "list_all is_cont cs" and len: "length cs = n"
    and b: "concat bufs = l # cs" and k: "concat (take k bufs) \<noteq> l # cs"
  shows "snd (snd (feed wsz sputc d m_out (take k bufs))) = m_out"
proof -
  let ?pre = "concat (take k bufs)"
  have pre: "?pre = take (length ?pre) (l # cs)"
    using concat_take_prefix [of k bufs] by (simp only: b)
  show ?thesis
  proof (cases "length ?pre")
    case 0
    then have "?pre = []" by simp
    from feed_nothing [OF this, of wsz sputc d m_out] show ?thesis by simp
  next
    case (Suc m)
    with pre have e: "?pre = l # take m cs" by simp
    have "m < n"
    proof (rule ccontr)
      assume "\<not> m < n"
      with e len have "?pre = l # cs" by simp
      with k show False by simp
    qed
    with len have m: "length (take m cs) < n" by simp
    from cs have "list_all is_cont (take m cs)"
      by (auto simp add: list_all_iff dest: in_set_takeD)
    from feed_partial [OF l this m e, of wsz sputc d m_out] show ?thesis by simp
  qed
qed

subsection \<open>Code points beyond the Basic Multilingual Plane\<close>

text \<open>
  Claim C4. Let \<open>p\<close> be a code point in \<open>[0x10000, 0x10FFFF]\<close>, let the pieces \<open>bufs\<close>, put
  together, be its four-byte encoding, and let \<open>wchar_t\<close> have two bytes. Written piece by
  piece to a decoder in its initial state, over a wide stream buffer that takes the first
  unit, they make exactly two calls of \<open>sputc\<close>: first with the high surrogate
  \<open>((p - 0x10000) >> 10) + 0xD800\<close>, then with the low surrogate
  \<open>((p - 0x10000) & 0x3FF) + 0xDC00\<close>. As long as the pieces written so far are not the
  whole encoding, the wide stream buffer has not been touched: both units are written
  when the last byte has come, however the bytes are split.
\<close>

theorem supplementary_code_point_surrogate_pair:
  fixes p :: "32 word"
  assumes "0x10000 \<le> p" and "p \<le> 0x10FFFF"
    and "concat bufs = utf8_encode p"
    and "fst (sputc m_out (drop_bit 10 (p - 0x10000) + 0xD800))"
  shows "feed 2 sputc (utf8_on_wide_out_init p0) m_out bufs =
           (map (\<lambda>buf. int (length buf)) bufs,
            \<lparr>left = - 1, point = p - 0x10000\<rparr>,
            snd (sputc (snd (sputc m_out (drop_bit 10 (p - 0x10000) + 0xD800)))
                  (((p - 0x10000) AND 0x3FF) + 0xDC00))) \<and>
         (\<forall>k. concat (take k bufs) \<noteq> utf8_encode p \<longrightarrow>
              snd (snd (feed 2 sputc (utf8_on_wide_out_init p0) m_out (take k bufs))) = m_out)"
proof -
  from assms(2) have "p < 0x200000" by unat_arith
  from encode_4 [OF assms(1) this] obtain l c1 c2 c3 where e: "utf8_encode p = [l, c1, c2, c3]"
    and s: "lead_need l = Some 3" "list_all is_cont [c1, c2, c3]" "length [c1, c2, c3] = 3"
    and v: "seq_value l [c1, c2, c3] = p"
    by auto
  let ?d = "utf8_on_wide_out_init p0"
  have w: "(2::nat) \<le> 2" "(2::nat) < 4" by simp_all
  note c = complete_run [OF s, of 2 sputc ?d m_out]
  from c(1) have u: "unbroken 2 sputc ?d m_out (butlast (concat bufs))"
    by (simp only: assms(3) e)
  obtain ok1 out1 where "sputc m_out (drop_bit 10 (p - 0x10000) + 0xD800) = (ok1, out1)"
    by (cases "sputc m_out (drop_bit 10 (p - 0x10000) + 0xD800)")
  with assms(4) have s1: "sputc m_out (drop_bit 10 (p - 0x10000) + 0xD800) = (True, out1)"
    by simp
  have ep: "emit_point 2 sputc \<lparr>left = 0, point = p\<rparr> m_out =
      (fst (sputc out1 (((p - 0x10000) AND 0x3FF) + 0xDC00)),
       \<lparr>left = - 1, point = p - 0x10000\<rparr>,
       snd (sputc out1 (((p - 0x10000) AND 0x3FF) + 0xDC00)))"
    using emit_point_pair [OF w assms(1,2), of sputc m_out] s1 by simp
  from c(2) have "run_bytes 2 sputc ?d m_out (concat bufs) =
      (\<lparr>left = - 1, point = p - 0x10000\<rparr>,
       snd (sputc out1 (((p - 0x10000) AND 0x3FF) + 0xDC00)))"
    by (simp only: assms(3) e v ep snd_conv)
  with s1 have r: "run_bytes 2 sputc ?d m_out (concat bufs) =
      (\<lparr>left = - 1, point = p - 0x10000\<rparr>,
       snd (sputc (snd (sputc m_out (drop_bit 10 (p - 0x10000) + 0xD800)))
             (((p - 0x10000) AND 0x3FF) + 0xDC00)))"
    by simp
  have first: "feed 2 sputc ?d m_out bufs =
           (map (\<lambda>buf. int (length buf)) bufs,
            \<lparr>left = - 1, point = p - 0x10000\<rparr>,
            snd (sputc (snd (sputc m_out (drop_bit 10 (p - 0x10000) + 0xD800)))
                  (((p - 0x10000) AND 0x3FF) + 0xDC00)))"
    using feed_pieces [OF u] r small_pieces [OF assms(3)] by simp
  have "snd (snd (feed 2 sputc ?d m_out (take k bufs))) = m_out"
    if "concat (take k bufs) \<noteq> utf8_encode p" for k
  proof -
    from assms(3) e have b: "concat bufs = l # [c1, c2, c3]" by simp
    from that e have "concat (take k bufs) \<noteq> l # [c1, c2, c3]" by simp
    from feed_incomplete [OF s b this] show ?thesis .
  qed
  with first show ?thesis by blast
qed

theorem supplementary_code_point_surrogate_pair_witness:
  "(0x10000::32 word) \<le> 0x1F600 \<and> (0x1F600::32 word) \<le> 0x10FFFF \<and>
   concat [[0xF0], [0x9F], [0x98], [0x80]] = utf8_encode 0x1F600 \<and>
   fst ((\<lambda>s u. (True, s @ [u])) ([]::32 word list) (drop_bit 10 (0x1F600 - 0x10000) + 0xD800)) \<and>
   feed 2 (\<lambda>s u. (True, s @ [u])) (utf8_on_wide_out_init 0) [] [[0xF0], [0x9F], [0x98], [0x80]] =
     ([1, 1, 1, 1], \<lparr>left = - 1, point = 0xF600\<rparr>, [0xD83D, 0xDE00]) \<and>
   concat (take 3 [[0xF0], [0x9F], [0x98], [0x80::8 word]]) \<noteq> utf8_encode 0x1F600 \<and>
   snd (snd (feed 2 (\<lambda>s u. (True, s @ [u])) (utf8_on_wide_out_init 0) []
     (take 3 [[0xF0], [0x9F], [0x98], [0x80]]))) = []"
proof -
  have h1: "(0x10000::32 word) \<le> 0x1F600" by simp
  have h2: "(0x1F600::32 word) \<le> 0x10FFFF" by simp
  have h3: "concat [[0xF0], [0x9F], [0x98], [0x80]] = utf8_encode 0x1F600"
    by (simp add: utf8_encode_def)
  have h4: "fst ((\<lambda>s u. (True, s @ [u])) ([]::32 word list) (drop_bit 10 (0x1F600 - 0x10000) + 0xD800))"
    by simp
  have h5: "concat (take 3 [[0xF0], [0x9F], [0x98], [0x80::8 word]]) \<noteq> utf8_encode 0x1F600"
    by (simp add: utf8_encode_def)
  note t = supplementary_code_point_surrogate_pair
    [where sputc = "\<lambda>s u. (True, s @ [u])" and m_out = "[]" and ?p0.0 = 0, OF h1 h2 h3 h4]
  from t have a: "feed 2 (\<lambda>s u. (True, s @ [u])) (utf8_on_wide_out_init 0) []
      [[0xF0], [0x9F], [0x98], [0x80]] =
     ([1, 1, 1, 1], \<lparr>left = - 1, point = 0xF600\<rparr>, [0xD83D, 0xDE00])"
    by simp
  from t h5 have b: "snd (snd (feed 2 (\<lambda>s u. (True, s @ [u])) (utf8_on_wide_out_init 0) []
     (take 3 [[0xF0], [0x9F], [0x98], [0x80]]))) = []"
    by blast
  show ?thesis by (intro conjI h1 h2 h3 h4 h5 a b)
qed

subsection \<open>A write that fails\<close>

text \<open>
  The loop is left early only where a write fails: over a wide stream buffer that takes
  every character, no byte makes it stop.
\<close>

lemma decode_byte_accepted:
  assumes "\<And>s u. fst (sputc s u)"
  shows "fst (decode_byte wsz sputc d m_out ch)"
  using assms
  by (auto simp add: decode_byte_def emit_point_def output_ch_def Let_def
      split: prod.splits bool.splits dest: fstI)

lemma unbroken_accepted:
  assumes "\<And>s u. fst (sputc s u)"
  shows "unbroken wsz sputc d m_out bs"
proof (induction bs arbitrary: d m_out)
  case Nil
  show ?case by simp
next
  case (Cons ch rest)
  from decode_byte_accepted [of sputc wsz d m_out ch] assms Cons.IH show ?case
    by (auto split: prod.splits)
qed















subsection \<open>A well-formed sequence, from any state of the decoder\<close>

lemma emit_point_left:
  "left (fst (snd (emit_point wsz sputc d m_out))) = - 1"
  by (simp add: emit_point_def Let_def split: prod.split bool.split)

lemma run_encode_valid:
  fixes p :: "32 word"
  assumes w: "2 \<le> wsz" and p: "p \<le> 0x10FFFF" "\<not> (0xD800 \<le> p \<and> p \<le> 0xDFFF)"
  shows "unbroken wsz sputc d m_out (butlast (utf8_encode p)) \<and>
    snd (run_bytes wsz sputc d m_out (utf8_encode p)) = snd (put_all sputc m_out (wide_units wsz p)) \<and>
    left (fst (run_bytes wsz sputc d m_out (utf8_encode p))) = - 1"
proof (cases "p < 0x10000")
  case True
  with p have b: "p \<le> 0xD7FF \<or> (0xE000 \<le> p \<and> p \<le> 0xFFFF)" by unat_arith
  from True have "wide_units wsz p = [p]" by (simp add: wide_units_def)
  with run_encode_bmp [OF w b, of sputc d m_out] show ?thesis
    by (simp split: prod.split bool.split)
next
  case False
  then have lo: "0x10000 \<le> p" by simp
  from p have "p < 0x200000" by unat_arith
  from encode_4 [OF lo this] obtain l c1 c2 c3 where e: "utf8_encode p = [l, c1, c2, c3]"
    and s: "lead_need l = Some 3" "list_all is_cont [c1, c2, c3]" "length [c1, c2, c3] = 3"
    and v: "seq_value l [c1, c2, c3] = p"
    by auto
  note c = complete_run [OF s, of wsz sputc d m_out]
  have u: "unbroken wsz sputc d m_out (butlast (utf8_encode p))"
    using c(1) by (simp only: e)
  have r: "run_bytes wsz sputc d m_out (utf8_encode p) =
      snd (emit_point wsz sputc \<lparr>left = 0, point = p\<rparr> m_out)"
    using c(2) by (simp only: e v)
  have "snd (snd (emit_point wsz sputc \<lparr>left = 0, point = p\<rparr> m_out)) =
      snd (put_all sputc m_out (wide_units wsz p))"
  proof (cases "4 \<le> wsz")
    case True
    then show ?thesis
      by (simp add: emit_point_single to_char_type_32 wide_units_def split: prod.split bool.split)
  next
    case False
    with w have "wsz < 4" by simp
    from emit_point_pair [OF w this lo p(1), of sputc m_out] False \<open>\<not> p < 0x10000\<close>
    show ?thesis
      by (simp add: wide_units_def split: prod.split bool.split)
  qed
  with u r show ?thesis by (simp add: emit_point_left)
qed

lemma length_utf8_encode_small: "length (utf8_encode p) < 2 ^ 31"
  by (simp add: utf8_encode_def)

lemma xsputn_encode_valid:
  fixes p :: "32 word"
  assumes "2 \<le> wsz" "p \<le> 0x10FFFF" "\<not> (0xD800 \<le> p \<and> p \<le> 0xDFFF)"
  shows "\<exists>d'. xsputn wsz sputc d m_out (utf8_encode p) =
      (int (length (utf8_encode p)), d', snd (put_all sputc m_out (wide_units wsz p))) \<and>
      left d' = - 1"
proof -
  note r = run_encode_valid [OF assms, of sputc d m_out]
  from r have "output_raw_loop wsz sputc d m_out (utf8_encode p) =
      (length (utf8_encode p), run_bytes wsz sputc d m_out (utf8_encode p))"
    by (simp only: loop_butlast)
  moreover obtain d' out' where "run_bytes wsz sputc d m_out (utf8_encode p) = (d', out')"
    by (cases "run_bytes wsz sputc d m_out (utf8_encode p)")
  ultimately show ?thesis using r
    by (simp add: xsputn_def output_raw_def narrow_int_small [OF length_utf8_encode_small])
qed

subsection \<open>Bytes out of place\<close>

lemma to_char_type_byte: "1 \<le> wsz \<Longrightarrow> to_char_type wsz (ucast (a :: 8 word)) = ucast a"
  unfolding to_char_type_def
proof (intro bit_word_eqI)
  fix k assume w: "1 \<le> wsz"
  have "k < 8 * wsz" if "bit a k"
    using bit_imp_le_length [OF that] w by simp
  then show "bit (take_bit (8 * wsz) (ucast a :: 32 word)) k = bit (ucast a :: 32 word) k"
    by (auto simp add: bit_simps)
qed

lemma xsputn_truncated_ascii:
  assumes "1 \<le> wsz" "lead_need l = Some n" "list_all is_cont cs" "length cs < n"
    and "a AND 0x80 = 0"
  shows "xsputn wsz sputc d m_out (l # cs @ [a]) =
    (int (length cs) + 2, \<lparr>left = - 1, point = seq_value l cs\<rparr>, snd (sputc m_out (ucast a)))"
proof -
  note p = partial_run [OF assms(2-4), of wsz sputc d m_out]
  from assms(2,4) have "n \<le> 3" by (auto simp add: lead_need_def split: if_splits)
  with assms(4) have "Suc (Suc (length cs)) < 2 ^ 31" by simp
  then have n: "narrow_int (Suc (Suc (length cs))) = int (length cs) + 2"
    by (simp add: narrow_int_small)
  have "l # cs @ [a] = (l # cs) @ [a]" by simp
  then have "output_raw_loop wsz sputc d m_out (l # cs @ [a]) =
      (Suc (length (l # cs)), run_bytes wsz sputc d m_out ((l # cs) @ [a]))"
    using loop_unbroken_snoc [of wsz sputc d m_out "l # cs" a] p by (simp only:)
  also have "run_bytes wsz sputc d m_out ((l # cs) @ [a]) =
      (\<lparr>left = - 1, point = seq_value l cs\<rparr>, snd (sputc m_out (ucast a)))"
    using p assms(1,5)
    by (simp only: run_bytes_append) (simp add: decode_byte_ascii to_char_type_byte)
  finally show ?thesis
    using n by (simp add: xsputn_def output_raw_def)
qed

lemma xsputn_truncated_other:
  assumes "lead_need l = Some n" "list_all is_cont cs" "length cs < n"
    and "b AND 0x80 \<noteq> 0" "\<not> is_cont b"
  shows "xsputn wsz sputc d m_out (l # cs @ [b]) =
    (int (length cs) + 2,
     (case lead_need b of
        Some m \<Rightarrow> \<lparr>left = int m, point = lead_payload b\<rparr>
      | None \<Rightarrow> \<lparr>left = - 1, point = seq_value l cs\<rparr>),
     m_out)"
proof -
  note p = partial_run [OF assms(1-3), of wsz sputc d m_out]
  let ?d1 = "\<lparr>left = int n - int (length cs), point = seq_value l cs\<rparr>"
  from lead_need_le [OF assms(1)] assms(3) have "Suc (Suc (length cs)) < 2 ^ 31" by simp
  then have n: "narrow_int (Suc (Suc (length cs))) = int (length cs) + 2"
    by (simp add: narrow_int_small)
  have step: "decode_byte wsz sputc ?d1 m_out b =
    (True,
     (case lead_need b of
        Some m \<Rightarrow> \<lparr>left = int m, point = lead_payload b\<rparr>
      | None \<Rightarrow> \<lparr>left = - 1, point = seq_value l cs\<rparr>),
     m_out)"
  proof (cases "lead_need b")
    case (Some m)
    then show ?thesis by (simp add: decode_byte_lead)
  next
    case None
    with assms(4,5) byte_classes [of b] have "b AND 0xF8 = 0xF8" by auto
    with None show ?thesis by (simp add: decode_byte_invalid)
  qed
  have "l # cs @ [b] = (l # cs) @ [b]" by simp
  then have "output_raw_loop wsz sputc d m_out (l # cs @ [b]) =
      (Suc (length (l # cs)), run_bytes wsz sputc d m_out ((l # cs) @ [b]))"
    using loop_unbroken_snoc [of wsz sputc d m_out "l # cs" b] p by (simp only:)
  also have "run_bytes wsz sputc d m_out ((l # cs) @ [b]) =
      ((case lead_need b of
          Some m \<Rightarrow> \<lparr>left = int m, point = lead_payload b\<rparr>
        | None \<Rightarrow> \<lparr>left = - 1, point = seq_value l cs\<rparr>),
       m_out)"
    using p step by (simp only: run_bytes_append) simp
  finally show ?thesis
    using n by (simp add: xsputn_def output_raw_def)
qed

lemma narrow_int_1: "narrow_int (Suc 0) = 1"
  by (simp add: narrow_int_def)

lemma xsputn_stray:
  "left d = - 1 \<Longrightarrow> is_cont c \<Longrightarrow> xsputn wsz sputc d m_out [c] = (1, d, m_out)"
  by (simp add: xsputn_def output_raw_def decode_byte_stray narrow_int_1)

lemma xsputn_invalid:
  "b AND 0xF8 = 0xF8 \<Longrightarrow> xsputn wsz sputc d m_out [b] = (1, d\<lparr>left := - 1\<rparr>, m_out)"
  by (simp add: xsputn_def output_raw_def decode_byte_invalid narrow_int_1)

subsection \<open>Malformed input\<close>

text \<open>
  Claim C6. Malformed input is dropped without an error, and the decoder is reset. Malformed
  is what the decoder takes for malformed: a sequence that is cut short, a continuation
  byte out of place, a byte \<open>11111xxx\<close>. (The decoder does not look for overlong forms or
  for values out of range.)
  \<^item> A sequence cut short (\<open>l\<close> is a lead byte, \<open>cs\<close> are fewer continuation bytes than it
    asks for) and then the ASCII byte \<open>a\<close>: the only call of \<open>sputc\<close> is the one with \<open>a\<close>,
    all bytes are consumed, and \<open>left\<close> is \<open>-1\<close>, from any state of the decoder.
  \<^item> A sequence cut short by another byte \<open>b\<close> that is no continuation byte: nothing is
    written, all bytes are consumed; a lead byte \<open>b\<close> starts its own sequence, any other
    \<open>b\<close> leaves \<open>left = -1\<close>.
  \<^item> A continuation byte while no sequence is in progress: nothing is written, the byte is
    consumed, the decoder stays as it is, with \<open>left = -1\<close>.
  \<^item> An invalid lead byte (\<open>11111xxx\<close>): nothing is written, the byte is consumed, and
    \<open>left\<close> is \<open>-1\<close>.
  \<^item> From any state of the decoder, so also from the state that each of these cases ends
    in, the encoding of a code point \<open>p\<close> (up to \<open>0x10FFFF\<close>, no surrogate) writes the wide
    units of \<open>p\<close> and nothing else, and ends with \<open>left = -1\<close>.
\<close>

theorem malformed_input_is_dropped:
  fixes p :: "32 word"
  assumes "2 \<le> wsz"
  shows "(lead_need l = Some n \<and> list_all is_cont cs \<and> length cs < n \<and> a AND 0x80 = 0 \<longrightarrow>
            xsputn wsz sputc d m_out (l # cs @ [a]) =
              (int (length cs) + 2, \<lparr>left = - 1, point = seq_value l cs\<rparr>,
               snd (sputc m_out (ucast a)))) \<and>
         (lead_need l = Some n \<and> list_all is_cont cs \<and> length cs < n \<and>
            b AND 0x80 \<noteq> 0 \<and> \<not> is_cont b \<longrightarrow>
            xsputn wsz sputc d m_out (l # cs @ [b]) =
              (int (length cs) + 2,
               (case lead_need b of
                  Some m \<Rightarrow> \<lparr>left = int m, point = lead_payload b\<rparr>
                | None \<Rightarrow> \<lparr>left = - 1, point = seq_value l cs\<rparr>),
               m_out)) \<and>
         (left d = - 1 \<and> is_cont c \<longrightarrow> xsputn wsz sputc d m_out [c] = (1, d, m_out)) \<and>
         (e AND 0xF8 = 0xF8 \<longrightarrow> xsputn wsz sputc d m_out [e] = (1, d\<lparr>left := - 1\<rparr>, m_out)) \<and>
         (p \<le> 0x10FFFF \<and> \<not> (0xD800 \<le> p \<and> p \<le> 0xDFFF) \<longrightarrow>
            (\<exists>d'. xsputn wsz sputc d m_out (utf8_encode p) =
                    (int (length (utf8_encode p)), d',
                     snd (put_all sputc m_out (wide_units wsz p))) \<and>
                  left d' = - 1))"
proof (intro conjI impI)
  assume "lead_need l = Some n \<and> list_all is_cont cs \<and> length cs < n \<and> a AND 0x80 = 0"
  with assms show "xsputn wsz sputc d m_out (l # cs @ [a]) =
      (int (length cs) + 2, \<lparr>left = - 1, point = seq_value l cs\<rparr>, snd (sputc m_out (ucast a)))"
    using xsputn_truncated_ascii [of wsz l n cs a sputc d m_out] by simp
next
  assume "lead_need l = Some n \<and> list_all is_cont cs \<and> length cs < n \<and>
    b AND 0x80 \<noteq> 0 \<and> \<not> is_cont b"
  then show "xsputn wsz sputc d m_out (l # cs @ [b]) =
      (int (length cs) + 2,
       (case lead_need b of
          Some m \<Rightarrow> \<lparr>left = int m, point = lead_payload b\<rparr>
        | None \<Rightarrow> \<lparr>left = - 1, point = seq_value l cs\<rparr>),
       m_out)"
    using xsputn_truncated_other [of l n cs b wsz sputc d m_out] by simp
next
  assume "left d = - 1 \<and> is_cont c"
  then show "xsputn wsz sputc d m_out [c] = (1, d, m_out)"
    by (simp add: xsputn_stray)
next
  assume "e AND 0xF8 = 0xF8"
  then show "xsputn wsz sputc d m_out [e] = (1, d\<lparr>left := - 1\<rparr>, m_out)"
    by (rule xsputn_invalid)
next
  assume "p \<le> 0x10FFFF \<and> \<not> (0xD800 \<le> p \<and> p \<le> 0xDFFF)"
  then show "\<exists>d'. xsputn wsz sputc d m_out (utf8_encode p) =
      (int (length (utf8_encode p)), d', snd (put_all sputc m_out (wide_units wsz p))) \<and>
      left d' = - 1"
    using assms by (intro xsputn_encode_valid) simp_all
qed

theorem malformed_input_is_dropped_witness:
  "(2::nat) \<le> 2 \<and>
   (lead_need 0xE4 = Some 2 \<and> list_all is_cont [0xB8] \<and> length [0xB8 :: 8 word] < 2 \<and>
      (0x41 :: 8 word) AND 0x80 = 0) \<and>
   xsputn 2 (\<lambda>s u. (True, s @ [u])) (utf8_on_wide_out_init 0) [] (0xE4 # [0xB8] @ [0x41]) =
     (3, \<lparr>left = - 1, point = 0x138\<rparr>, [0x41]) \<and>
   (lead_need 0xE4 = Some 2 \<and> list_all is_cont [0xB8] \<and> length [0xB8 :: 8 word] < 2 \<and>
      (0xC3 :: 8 word) AND 0x80 \<noteq> 0 \<and> \<not> is_cont 0xC3) \<and>
   xsputn 2 (\<lambda>s u. (True, s @ [u])) (utf8_on_wide_out_init 0) [] (0xE4 # [0xB8] @ [0xC3]) =
     (3, \<lparr>left = 1, point = 3\<rparr>, []) \<and>
   (left (utf8_on_wide_out_init 0) = - 1 \<and> is_cont 0x80) \<and>
   xsputn 2 (\<lambda>s u. (True, s @ [u])) (utf8_on_wide_out_init 0) [] [0x80] =
     (1, utf8_on_wide_out_init 0, []) \<and>
   (0xFF :: 8 word) AND 0xF8 = 0xF8 \<and>
   xsputn 2 (\<lambda>s u. (True, s @ [u])) (utf8_on_wide_out_init 0) [] [0xFF] =
     (1, utf8_on_wide_out_init 0, []) \<and>
   ((0xE9 :: 32 word) \<le> 0x10FFFF \<and>
      \<not> (0xD800 \<le> (0xE9 :: 32 word) \<and> (0xE9 :: 32 word) \<le> 0xDFFF)) \<and>
   (\<exists>d'. xsputn 2 (\<lambda>s u. (True, s @ [u])) (utf8_on_wide_out_init 0) [] (utf8_encode 0xE9) =
           (2, d', [0xE9]) \<and> left d' = - 1)"
proof -
  let ?sputc = "\<lambda>(s::32 word list) (u::32 word). (True, s @ [u])"
  let ?d = "utf8_on_wide_out_init 0"
  have h1: "(2::nat) \<le> 2" by simp
  have h2: "lead_need 0xE4 = Some 2 \<and> list_all is_cont [0xB8] \<and> length [0xB8 :: 8 word] < 2 \<and>
      (0x41 :: 8 word) AND 0x80 = 0"
    by (simp add: lead_need_def is_cont_def)
  have h2': "lead_need 0xE4 = Some 2 \<and> list_all is_cont [0xB8] \<and> length [0xB8 :: 8 word] < 2 \<and>
      (0xC3 :: 8 word) AND 0x80 \<noteq> 0 \<and> \<not> is_cont 0xC3"
    by (simp add: lead_need_def is_cont_def)
  have h3: "left ?d = - 1 \<and> is_cont 0x80"
    by (simp add: utf8_on_wide_out_init_def is_cont_def)
  have h4: "(0xFF :: 8 word) AND 0xF8 = 0xF8" by simp
  have h5: "(0xE9 :: 32 word) \<le> 0x10FFFF \<and>
      \<not> (0xD800 \<le> (0xE9 :: 32 word) \<and> (0xE9 :: 32 word) \<le> 0xDFFF)"
    by simp
  note t = malformed_input_is_dropped [OF h1, of "0xE4" 2 "[0xB8]" "0x41" ?sputc ?d "[]" "0xC3"
      "0x80" "0xFF" "0xE9"]
  from t h2 have c1: "xsputn 2 ?sputc ?d [] (0xE4 # [0xB8] @ [0x41]) =
      (3, \<lparr>left = - 1, point = 0x138\<rparr>, [0x41])"
    by (simp add: seq_value_def lead_payload_def)
  from t h2' have c1': "xsputn 2 ?sputc ?d [] (0xE4 # [0xB8] @ [0xC3]) =
      (3, \<lparr>left = 1, point = 3\<rparr>, [])"
    by (simp add: lead_need_def lead_payload_def)
  from t h3 have c2: "xsputn 2 ?sputc ?d [] [0x80] = (1, ?d, [])" by simp
  from t h4 have c3: "xsputn 2 ?sputc ?d [] [0xFF] = (1, ?d, [])"
    by (simp add: utf8_on_wide_out_init_def)
  from t h5 have c4: "\<exists>d'. xsputn 2 ?sputc ?d [] (utf8_encode 0xE9) = (2, d', [0xE9]) \<and>
      left d' = - 1"
    by (simp add: utf8_encode_def wide_units_def)
  show ?thesis by (intro conjI h1 h2 c1 h2' c1' h3 c2 h4 c3 h5 c4)
qed

subsection \<open>Complete sequences\<close>

lemma complete_unbroken:
  assumes "lead_need l = Some n" "list_all is_cont cs" "length cs = n"
  shows "unbroken wsz sputc d m_out (l # cs) \<longleftrightarrow>
    fst (emit_point wsz sputc \<lparr>left = 0, point = seq_value l cs\<rparr> m_out)"
proof -
  from assms have "n \<noteq> 0" by (auto simp: lead_need_def split: if_splits)
  with assms obtain xs c where cs: "cs = xs @ [c]"
    by (cases cs rule: rev_cases) auto
  with assms have xs: "list_all is_cont xs" "length xs < n" and c: "is_cont c"
    and n: "int n - int (length xs) = 1" by auto
  note p = partial_run [OF assms(1) xs, of wsz sputc d m_out]
  have "l # cs = (l # xs) @ [c]" by (simp add: cs)
  then show ?thesis
    using p c n
    by (simp only: unbroken_append)
      (simp add: decode_byte_last cs seq_value_snoc split: prod.splits)
qed

lemma emit_point_dropped:
  fixes v :: "32 word"
  assumes "wsz < 4" "0xD800 \<le> v \<and> v \<le> 0xDFFF \<or> 0x10FFFF < v"
  shows "emit_point wsz sputc \<lparr>left = 0, point = v\<rparr> m_out =
    (True, \<lparr>left = - 1, point = v\<rparr>, m_out)"
proof -
  from assms(2) have "\<not> v \<le> 0xD7FF" "\<not> (0xE000 \<le> v \<and> v \<le> 0xFFFF)"
    "\<not> (0x10000 \<le> v \<and> v \<le> 0x10FFFF)"
    by unat_arith+
  with assms(1) show ?thesis by (auto simp add: emit_point_def Let_def)
qed

lemma xsputn_complete:
  assumes "lead_need l = Some n" "list_all is_cont cs" "length cs = n"
  shows "xsputn wsz sputc d m_out (l # cs) =
    (int n + 1, snd (emit_point wsz sputc \<lparr>left = 0, point = seq_value l cs\<rparr> m_out))"
proof -
  note c = complete_run [OF assms, of wsz sputc d m_out]
  from lead_need_le [OF assms(1)] assms(3) have "length (l # cs) < 2 ^ 31" by simp
  then have "narrow_int (length (l # cs)) = int n + 1"
    by (simp add: narrow_int_small assms(3))
  with loop_butlast [OF c(1)] c(2) show ?thesis
    by (simp only: xsputn_def output_raw_def split: prod.split) simp
qed

lemma utf8_encode_not_Nil: "utf8_encode p \<noteq> []"
  by (simp add: utf8_encode_def)

lemma xsputn_dropped_then_valid:
  fixes p :: "32 word"
  assumes s: "lead_need l = Some n" "list_all is_cont cs" "length cs = n"
    and v: "0xD800 \<le> seq_value l cs \<and> seq_value l cs \<le> 0xDFFF \<or> 0x10FFFF < seq_value l cs"
    and p: "p \<le> 0x10FFFF" "\<not> (0xD800 \<le> p \<and> p \<le> 0xDFFF)"
  shows "\<exists>d'. xsputn 2 sputc d m_out (l # cs @ utf8_encode p) =
      (int n + 1 + int (length (utf8_encode p)), d',
       snd (put_all sputc m_out (wide_units 2 p))) \<and> left d' = - 1"
proof -
  let ?d1 = "\<lparr>left = - 1, point = seq_value l cs\<rparr>"
  have w: "(2::nat) < 4" "(2::nat) \<le> 2" by simp_all
  note e = emit_point_dropped [OF w(1) v, of sputc m_out]
  have u1: "unbroken 2 sputc d m_out (l # cs)"
    by (simp only: complete_unbroken [OF s] e fst_conv)
  have r1: "run_bytes 2 sputc d m_out (l # cs) = (?d1, m_out)"
    by (simp only: complete_run(2) [OF s] e snd_conv)
  note r2 = run_encode_valid [OF w(2) p, of sputc ?d1 m_out]
  obtain d' out' where r3: "run_bytes 2 sputc ?d1 m_out (utf8_encode p) = (d', out')"
    by (cases "run_bytes 2 sputc ?d1 m_out (utf8_encode p)")
  have "butlast ((l # cs) @ utf8_encode p) = (l # cs) @ butlast (utf8_encode p)"
    by (simp add: butlast_append utf8_encode_not_Nil)
  with u1 r1 r2 have "unbroken 2 sputc d m_out (butlast ((l # cs) @ utf8_encode p))"
    by (simp only: unbroken_append) simp
  from loop_butlast [OF this] r1 r3
  have "output_raw_loop 2 sputc d m_out ((l # cs) @ utf8_encode p) =
      (length ((l # cs) @ utf8_encode p), d', out')"
    by (simp only: run_bytes_append) simp
  moreover have "length ((l # cs) @ utf8_encode p) < 2 ^ 31"
    using lead_need_le [OF s(1)] s(3) length_utf8_encode [of p] by simp
  then have "narrow_int (length ((l # cs) @ utf8_encode p)) =
      int n + 1 + int (length (utf8_encode p))"
    by (simp add: narrow_int_small s(3))
  ultimately have "xsputn 2 sputc d m_out (l # cs @ utf8_encode p) =
      (int n + 1 + int (length (utf8_encode p)), d', out')"
    by (simp add: xsputn_def output_raw_def)
  with r2 r3 show ?thesis by simp
qed

subsection \<open>Values that have no wide unit\<close>

text \<open>
  Claim C10. Let \<open>l\<close> and \<open>cs\<close> be a complete sequence: a lead byte and as many continuation
  bytes as it asks for, of value \<open>seq_value l cs\<close>.
  \<^item> With a \<open>wchar_t\<close> of two bytes and a value in \<open>[0xD800, 0xDFFF]\<close> or above \<open>0x10FFFF\<close>,
    \<open>xsputn\<close> writes nothing, counts all bytes of the sequence as consumed and leaves
    \<open>left = -1\<close>; the encoding of a code point \<open>p\<close> that follows in the buffer writes the
    wide units of \<open>p\<close>, as it does to a fresh decoder.
  \<^item> With a \<open>wchar_t\<close> of at least four bytes, the sequence makes one call of \<open>sputc\<close>,
    with its value, whatever the value is.
\<close>

theorem unrepresentable_value:
  fixes p :: "32 word"
  assumes "lead_need l = Some n" and "list_all is_cont cs" and "length cs = n"
  shows "(0xD800 \<le> seq_value l cs \<and> seq_value l cs \<le> 0xDFFF \<or> 0x10FFFF < seq_value l cs \<longrightarrow>
            xsputn 2 sputc d m_out (l # cs) =
              (int n + 1, \<lparr>left = - 1, point = seq_value l cs\<rparr>, m_out) \<and>
            (p \<le> 0x10FFFF \<and> \<not> (0xD800 \<le> p \<and> p \<le> 0xDFFF) \<longrightarrow>
               (\<exists>d'. xsputn 2 sputc d m_out (l # cs @ utf8_encode p) =
                       (int n + 1 + int (length (utf8_encode p)), d',
                        snd (put_all sputc m_out (wide_units 2 p))) \<and>
                     left d' = - 1))) \<and>
         (4 \<le> wsz \<longrightarrow>
            xsputn wsz sputc d m_out (l # cs) =
              (int n + 1, \<lparr>left = - 1, point = seq_value l cs\<rparr>,
               snd (sputc m_out (seq_value l cs))))"
proof (intro conjI impI)
  assume v: "0xD800 \<le> seq_value l cs \<and> seq_value l cs \<le> 0xDFFF \<or> 0x10FFFF < seq_value l cs"
  have "(2::nat) < 4" by simp
  from emit_point_dropped [OF this v, of sputc m_out]
  show "xsputn 2 sputc d m_out (l # cs) =
      (int n + 1, \<lparr>left = - 1, point = seq_value l cs\<rparr>, m_out)"
    by (simp only: xsputn_complete [OF assms] snd_conv)
  assume "p \<le> 0x10FFFF \<and> \<not> (0xD800 \<le> p \<and> p \<le> 0xDFFF)"
  then have "p \<le> 0x10FFFF" "\<not> (0xD800 \<le> p \<and> p \<le> 0xDFFF)" by simp_all
  from xsputn_dropped_then_valid [OF assms v this]
  show "\<exists>d'. xsputn 2 sputc d m_out (l # cs @ utf8_encode p) =
      (int n + 1 + int (length (utf8_encode p)), d',
       snd (put_all sputc m_out (wide_units 2 p))) \<and> left d' = - 1" .
next
  assume "4 \<le> wsz"
  then show "xsputn wsz sputc d m_out (l # cs) =
      (int n + 1, \<lparr>left = - 1, point = seq_value l cs\<rparr>, snd (sputc m_out (seq_value l cs)))"
    by (simp add: xsputn_complete [OF assms] emit_point_single to_char_type_32)
qed

theorem unrepresentable_value_witness:
  "lead_need 0xED = Some 2 \<and> list_all is_cont [0xA0, 0x80] \<and> length [0xA0, 0x80 :: 8 word] = 2 \<and>
   (0xD800 \<le> seq_value 0xED [0xA0, 0x80] \<and> seq_value 0xED [0xA0, 0x80] \<le> 0xDFFF \<or>
      0x10FFFF < seq_value 0xED [0xA0, 0x80]) \<and>
   xsputn 2 (\<lambda>s u. (True, s @ [u])) \<lparr>left = 1, point = 5\<rparr> [] (0xED # [0xA0, 0x80]) =
     (3, \<lparr>left = - 1, point = 0xD800\<rparr>, []) \<and>
   ((0x1F600 :: 32 word) \<le> 0x10FFFF \<and>
      \<not> (0xD800 \<le> (0x1F600 :: 32 word) \<and> (0x1F600 :: 32 word) \<le> 0xDFFF)) \<and>
   (\<exists>d'. xsputn 2 (\<lambda>s u. (True, s @ [u])) \<lparr>left = 1, point = 5\<rparr> []
           (0xED # [0xA0, 0x80] @ utf8_encode 0x1F600) = (7, d', [0xD83D, 0xDE00]) \<and>
         left d' = - 1) \<and>
   (4::nat) \<le> 4 \<and>
   xsputn 4 (\<lambda>s u. (True, s @ [u])) \<lparr>left = 1, point = 5\<rparr> [] (0xED # [0xA0, 0x80]) =
     (3, \<lparr>left = - 1, point = 0xD800\<rparr>, [0xD800])"
proof -
  let ?sputc = "\<lambda>(s::32 word list) (u::32 word). (True, s @ [u])"
  let ?d = "\<lparr>left = 1, point = 5\<rparr>"
  have v: "seq_value 0xED [0xA0, 0x80] = 0xD800"
    by (simp add: seq_value_def lead_payload_def)
  have h1: "lead_need 0xED = Some 2" by (simp add: lead_need_def)
  have h2: "list_all is_cont [0xA0, 0x80]" by (simp add: is_cont_def)
  have h3: "length [0xA0, 0x80 :: 8 word] = 2" by simp
  have h4: "0xD800 \<le> seq_value 0xED [0xA0, 0x80] \<and> seq_value 0xED [0xA0, 0x80] \<le> 0xDFFF \<or>
      0x10FFFF < seq_value 0xED [0xA0, 0x80]"
    by (simp add: v)
  have h5: "(0x1F600 :: 32 word) \<le> 0x10FFFF \<and>
      \<not> (0xD800 \<le> (0x1F600 :: 32 word) \<and> (0x1F600 :: 32 word) \<le> 0xDFFF)"
    by simp
  have h6: "(4::nat) \<le> 4" by simp
  note t2 = unrepresentable_value [OF h1 h2 h3, of ?sputc ?d "[]" "0x1F600" 2]
  note t4 = unrepresentable_value [OF h1 h2 h3, of ?sputc ?d "[]" "0x1F600" 4]
  from t2 h4 have c1: "xsputn 2 ?sputc ?d [] (0xED # [0xA0, 0x80]) =
      (3, \<lparr>left = - 1, point = 0xD800\<rparr>, [])"
    by (simp add: v)
  from t2 h4 h5 have c2: "\<exists>d'. xsputn 2 ?sputc ?d [] (0xED # [0xA0, 0x80] @ utf8_encode 0x1F600) =
      (7, d', [0xD83D, 0xDE00]) \<and> left d' = - 1"
    by (simp add: v utf8_encode_def wide_units_def)
  from t4 h6 have c3: "xsputn 4 ?sputc ?d [] (0xED # [0xA0, 0x80]) =
      (3, \<lparr>left = - 1, point = 0xD800\<rparr>, [0xD800])"
    by (simp add: v)
  show ?thesis by (intro conjI h1 h2 h3 h4 c1 h5 c2 h6 c3)
qed

subsection \<open>The sequence in progress, byte by byte\<close>

lemma in_progress_snoc_lead:
  "lead_need ch = Some n \<Longrightarrow> in_progress (hist @ [ch]) = Some (ch, [])"
  by (simp add: in_progress_def lead_not_cont lead_need_pos)

lemma in_progress_snoc_other:
  "\<not> is_cont ch \<Longrightarrow> lead_need ch = None \<Longrightarrow> in_progress (hist @ [ch]) = None"
  by (simp add: in_progress_def)

lemma in_progress_snoc_cont:
  "is_cont ch \<Longrightarrow>
   in_progress (hist @ [ch]) =
     (case in_progress hist of
        None \<Rightarrow> None
      | Some (l, cs) \<Rightarrow>
          (case lead_need l of
             None \<Rightarrow> None
           | Some n \<Rightarrow> if Suc (length cs) < n then Some (l, cs @ [ch]) else None))"
proof -
  assume c: "is_cont ch"
  have tw: "takeWhile is_cont (rev (hist @ [ch])) = ch # takeWhile is_cont (rev hist)"
    using c by simp
  have dw: "dropWhile is_cont (rev (hist @ [ch])) = dropWhile is_cont (rev hist)"
    using c by simp
  show ?thesis
  proof (cases "dropWhile is_cont (rev hist)")
    case Nil
    show ?thesis unfolding in_progress_def Let_def tw dw Nil by simp
  next
    case (Cons l rest)
    show ?thesis unfolding in_progress_def Let_def tw dw Cons
      by (auto split: option.split)
  qed
qed

lemma in_progress_bound:
  "in_progress hist = Some (l, cs) \<Longrightarrow> \<exists>n. lead_need l = Some n \<and> length cs < n"
  by (auto simp add: in_progress_def Let_def split: list.splits option.splits if_splits)

lemma decoder_inv_left:
  assumes "decoder_inv hist d"
  shows "left d \<in> {- 1, 1, 2, 3}"
proof (cases "in_progress hist")
  case None
  with assms show ?thesis by (simp add: decoder_inv_def)
next
  case (Some a)
  obtain l cs where a: "a = (l, cs)" by (cases a)
  from in_progress_bound [OF Some [unfolded a]] obtain n
    where n: "lead_need l = Some n" "length cs < n" by blast
  from lead_need_le [OF n(1)] n(2) assms Some a n(1) show ?thesis
    by (auto simp add: decoder_inv_def)
qed

lemma decoder_inv_point:
  assumes "decoder_inv hist d" "0 < left d"
  shows "\<exists>l cs. in_progress hist = Some (l, cs) \<and> point d = seq_value l cs"
  using assms by (cases "in_progress hist") (auto simp add: decoder_inv_def split: option.splits)

lemma decoder_inv_init: "decoder_inv [] (utf8_on_wide_out_init p0)"
  by (simp add: decoder_inv_def in_progress_def utf8_on_wide_out_init_def)

lemma decoder_inv_reset:
  "\<not> is_cont ch \<Longrightarrow> lead_need ch = None \<Longrightarrow> decoder_inv (hist @ [ch]) (d\<lparr>left := - 1\<rparr>)"
  by (simp add: decoder_inv_def in_progress_snoc_other)

lemma decode_byte_inv:
  assumes inv: "decoder_inv hist d"
  shows "decoder_inv (hist @ [ch]) (fst (snd (decode_byte wsz sputc d m_out ch)))"
proof -
  consider (ascii) "ch AND 0x80 = 0" | (cont) "is_cont ch" | (lead) n where "lead_need ch = Some n"
    | (invalid) "ch AND 0xF8 = 0xF8"
    using byte_classes [of ch] by blast
  then show ?thesis
  proof cases
    case ascii
    then show ?thesis
      by (simp add: decode_byte_ascii decoder_inv_reset ascii_not_cont ascii_not_lead)
  next
    case lead
    then show ?thesis
      by (simp add: decode_byte_lead decoder_inv_def in_progress_snoc_lead seq_value_def)
  next
    case invalid
    then show ?thesis
      by (simp add: decode_byte_invalid decoder_inv_reset invalid_not_cont invalid_not_lead)
  next
    case cont
    show ?thesis
    proof (cases "in_progress hist")
      case None
      with inv have "left d \<le> 0" by (simp add: decoder_inv_def)
      with cont None show ?thesis
        by (simp add: decode_byte_stray decoder_inv_def in_progress_snoc_cont)
    next
      case (Some a)
      obtain l cs where a: "a = (l, cs)" by (cases a)
      from in_progress_bound [OF Some [unfolded a]] obtain n
        where n: "lead_need l = Some n" "length cs < n" by blast
      from inv Some a n have d: "left d = int n - int (length cs)" "point d = seq_value l cs"
        by (simp_all add: decoder_inv_def)
      show ?thesis
      proof (cases "Suc (length cs) < n")
        case True
        with d have "1 < left d" by simp
        with cont True d Some a n show ?thesis
          by (simp add: decode_byte_cont decoder_inv_def in_progress_snoc_cont seq_value_snoc)
      next
        case False
        with n d have "left d = 1" by simp
        with cont False Some a n show ?thesis
          by (simp add: decode_byte_last decoder_inv_def in_progress_snoc_cont emit_point_left)
      qed
    qed
  qed
qed

lemma loop_inv:
  "decoder_inv hist d \<Longrightarrow>
   decoder_inv (hist @ take (fst (output_raw_loop wsz sputc d m_out buf)) buf)
     (fst (snd (output_raw_loop wsz sputc d m_out buf)))"
proof (induction buf arbitrary: hist d m_out)
  case Nil
  then show ?case by simp
next
  case (Cons ch rest)
  obtain ok d1 out1 where s: "decode_byte wsz sputc d m_out ch = (ok, d1, out1)"
    by (cases "decode_byte wsz sputc d m_out ch")
  from decode_byte_inv [OF Cons.prems, of ch wsz sputc m_out] s
  have i: "decoder_inv (hist @ [ch]) d1" by simp
  show ?case
  proof (cases ok)
    case False
    with s i show ?thesis by simp
  next
    case True
    from Cons.IH [OF i, of out1] True s show ?thesis
      by (auto split: prod.splits)
  qed
qed

lemma xsputn_loop:
  "snd (xsputn wsz sputc d m_out buf) = snd (output_raw_loop wsz sputc d m_out buf)"
  by (simp add: xsputn_def output_raw_def split: prod.splits)

lemma overflow_inv:
  assumes "decoder_inv hist d" "c \<noteq> eof"
  shows "decoder_inv (hist @ [word_of_int c]) (fst (snd (overflow wsz sputc d m_out c)))"
proof (cases "(word_of_int c :: 8 word) AND 0x80 = 0")
  case True
  with assms(2) show ?thesis
    by (simp add: overflow_def Let_def decoder_inv_reset ascii_not_cont ascii_not_lead
        split: prod.splits)
next
  case False
  with assms(2) decode_byte_inv [OF assms(1), of "word_of_int c" wsz sputc m_out]
  show ?thesis
    by (auto simp add: overflow_def Let_def output_raw_def split: prod.splits bool.splits)
qed

subsection \<open>The invariant of the decoder\<close>

text \<open>
  Claim C9. \<open>decoder_inv hist d\<close> says that the decoder \<open>d\<close> agrees with the bytes \<open>hist\<close> it
  has consumed: \<open>left\<close> is \<open>-1\<close> when no sequence is in progress after \<open>hist\<close>, and otherwise
  \<open>left\<close> is the number of continuation bytes still missing and \<open>point\<close> is the value of the
  bytes of the sequence that have come. It holds of a new decoder with no bytes consumed.
  Where it holds, \<open>left\<close> is one of \<open>-1, 1, 2, 3\<close>, never \<open>0\<close>, and with \<open>left > 0\<close> the field
  \<open>point\<close> has exactly the payload bits of the sequence in progress. It is kept by every
  turn of the loop of \<open>output_raw\<close>, by \<open>xsputn\<close> on any buffer (for the bytes it consumed,
  also when a write fails) and by \<open>overflow\<close> of any character.
\<close>

theorem decoder_invariant:
  "decoder_inv [] (utf8_on_wide_out_init p0) \<and>
   (decoder_inv hist d \<longrightarrow>
      left d \<in> {- 1, 1, 2, 3} \<and>
      (0 < left d \<longrightarrow> (\<exists>l cs. in_progress hist = Some (l, cs) \<and> point d = seq_value l cs)) \<and>
      decoder_inv (hist @ [ch]) (fst (snd (decode_byte wsz sputc d m_out ch))) \<and>
      decoder_inv (hist @ take (fst (output_raw_loop wsz sputc d m_out buf)) buf)
        (fst (snd (xsputn wsz sputc d m_out buf))) \<and>
      (c \<noteq> eof \<longrightarrow>
         decoder_inv (hist @ [word_of_int c]) (fst (snd (overflow wsz sputc d m_out c)))))"
proof (intro conjI impI)
  show "decoder_inv [] (utf8_on_wide_out_init p0)" by (rule decoder_inv_init)
next
  assume "decoder_inv hist d"
  then show "left d \<in> {- 1, 1, 2, 3}" by (rule decoder_inv_left)
next
  assume "decoder_inv hist d" "0 < left d"
  then show "\<exists>l cs. in_progress hist = Some (l, cs) \<and> point d = seq_value l cs"
    by (rule decoder_inv_point)
next
  assume "decoder_inv hist d"
  then show "decoder_inv (hist @ [ch]) (fst (snd (decode_byte wsz sputc d m_out ch)))"
    by (rule decode_byte_inv)
next
  assume "decoder_inv hist d"
  then show "decoder_inv (hist @ take (fst (output_raw_loop wsz sputc d m_out buf)) buf)
      (fst (snd (xsputn wsz sputc d m_out buf)))"
    by (simp only: xsputn_loop loop_inv)
next
  assume "decoder_inv hist d" "c \<noteq> eof"
  then show "decoder_inv (hist @ [word_of_int c]) (fst (snd (overflow wsz sputc d m_out c)))"
    by (rule overflow_inv)
qed

theorem decoder_invariant_witness:
  "decoder_inv [0xE4, 0xB8] \<lparr>left = 1, point = 0x138\<rparr> \<and>
   left \<lparr>left = 1, point = 0x138\<rparr> \<in> {- 1, 1, 2, 3} \<and>
   0 < left \<lparr>left = 1, point = 0x138\<rparr> \<and>
   (\<exists>l cs. in_progress [0xE4, 0xB8] = Some (l, cs) \<and> point \<lparr>left = 1, point = 0x138\<rparr> = seq_value l cs) \<and>
   decoder_inv ([0xE4, 0xB8] @ [0x96])
     (fst (snd (decode_byte 2 (\<lambda>s u. (False, s)) \<lparr>left = 1, point = 0x138\<rparr> ([]::32 word list) 0x96))) \<and>
   decoder_inv ([0xE4, 0xB8] @
       take (fst (output_raw_loop 2 (\<lambda>s u. (False, s)) \<lparr>left = 1, point = 0x138\<rparr> ([]::32 word list)
         [0x96, 0xC3])) [0x96, 0xC3])
     (fst (snd (xsputn 2 (\<lambda>s u. (False, s)) \<lparr>left = 1, point = 0x138\<rparr> ([]::32 word list) [0x96, 0xC3]))) \<and>
   150 \<noteq> eof \<and>
   decoder_inv ([0xE4, 0xB8] @ [word_of_int 150])
     (fst (snd (overflow 2 (\<lambda>s u. (False, s)) \<lparr>left = 1, point = 0x138\<rparr> ([]::32 word list) 150)))"
proof -
  let ?d = "\<lparr>left = 1, point = 0x138\<rparr>"
  have i: "in_progress [0xE4, 0xB8] = Some (0xE4, [0xB8])"
    by (simp add: in_progress_def is_cont_def lead_need_def)
  have h1: "decoder_inv [0xE4, 0xB8] ?d"
    by (simp add: decoder_inv_def i lead_need_def seq_value_def lead_payload_def)
  have h2: "0 < left ?d" by simp
  have h3: "150 \<noteq> eof" by (simp add: eof_def)
  note t = decoder_invariant [of 0 "[0xE4, 0xB8]" ?d "0x96" 2 "\<lambda>s u. (False, s)" "[]::32 word list"
      "[0x96, 0xC3]" 150]
  from t h1 have c1: "left ?d \<in> {- 1, 1, 2, 3}" by blast
  from t h1 h2 have c2: "\<exists>l cs. in_progress [0xE4, 0xB8] = Some (l, cs) \<and> point ?d = seq_value l cs"
    by blast
  from t h1 have c3: "decoder_inv ([0xE4, 0xB8] @ [0x96])
     (fst (snd (decode_byte 2 (\<lambda>s u. (False, s)) ?d ([]::32 word list) 0x96)))"
    by blast
  from t h1 have c4: "decoder_inv ([0xE4, 0xB8] @
       take (fst (output_raw_loop 2 (\<lambda>s u. (False, s)) ?d ([]::32 word list) [0x96, 0xC3])) [0x96, 0xC3])
     (fst (snd (xsputn 2 (\<lambda>s u. (False, s)) ?d ([]::32 word list) [0x96, 0xC3])))"
    by blast
  from t h1 h3 have c5: "decoder_inv ([0xE4, 0xB8] @ [word_of_int 150])
     (fst (snd (overflow 2 (\<lambda>s u. (False, s)) ?d ([]::32 word list) 150)))"
    by blast
  show ?thesis by (intro conjI h1 c1 h2 c2 c3 c4 h3 c5)
qed

section \<open>Properties of the scope guard\<close>

subsection \<open>The constructor, stream by stream\<close>

lemma install_cout_Some:
  assumes "install_cout g s = Some (g1, s1)"
  shows "is_utf8_on_wide_out s1 (cout_rdbuf s1)"
    and "cerr_rdbuf s1 = cerr_rdbuf s"
    and "prepared s1 = prepared s"
    and "m_cerrBuf g1 = m_cerrBuf g"
    and "is_utf8_on_wide_out s (cout_rdbuf s) \<Longrightarrow> g1 = g \<and> s1 = s"
    and "\<not> is_utf8_on_wide_out s (cout_rdbuf s) \<Longrightarrow>
           m_coutBuf g1 = cout_rdbuf s \<and> cout_rdbuf s \<noteq> 0"
    and "count_list (calls s1) Setmode_stdout = count_list (calls s) Setmode_stdout"
    and "is_utf8_on_wide_out s p \<Longrightarrow> is_utf8_on_wide_out s1 p"
  using assms
  by (auto simp add: install_cout_def new_utf8_on_wide_out_def is_utf8_on_wide_out_def Let_def
      split: if_splits option.splits streambuf.splits)

lemma install_cerr_Some:
  assumes "install_cerr g s = Some (g1, s1)"
  shows "is_utf8_on_wide_out s1 (cerr_rdbuf s1)"
    and "cout_rdbuf s1 = cout_rdbuf s"
    and "prepared s1 = prepared s"
    and "m_coutBuf g1 = m_coutBuf g"
    and "is_utf8_on_wide_out s (cerr_rdbuf s) \<Longrightarrow> g1 = g \<and> s1 = s"
    and "\<not> is_utf8_on_wide_out s (cerr_rdbuf s) \<Longrightarrow>
           m_cerrBuf g1 = cerr_rdbuf s \<and> cerr_rdbuf s \<noteq> 0"
    and "count_list (calls s1) Setmode_stdout = count_list (calls s) Setmode_stdout"
    and "is_utf8_on_wide_out s p \<Longrightarrow> is_utf8_on_wide_out s1 p"
  using assms
  by (auto simp add: install_cerr_def new_utf8_on_wide_out_def is_utf8_on_wide_out_def Let_def
      split: if_splits option.splits streambuf.splits)

lemma ctor_translating:
  assumes "con_transcoder_ctor True s = Some (g, s')"
  shows "prepared s'"
    and "is_utf8_on_wide_out s' (cout_rdbuf s')"
    and "is_utf8_on_wide_out s' (cerr_rdbuf s')"
    and "is_utf8_on_wide_out s (cout_rdbuf s) \<Longrightarrow> m_coutBuf g = 0 \<and> cout_rdbuf s' = cout_rdbuf s"
    and "is_utf8_on_wide_out s (cerr_rdbuf s) \<Longrightarrow> m_cerrBuf g = 0 \<and> cerr_rdbuf s' = cerr_rdbuf s"
    and "m_coutBuf g = 0 \<and> cout_rdbuf s' = cout_rdbuf s \<or>
         m_coutBuf g = cout_rdbuf s \<and> cout_rdbuf s \<noteq> 0"
    and "m_cerrBuf g = 0 \<and> cerr_rdbuf s' = cerr_rdbuf s \<or>
         m_cerrBuf g = cerr_rdbuf s \<and> cerr_rdbuf s \<noteq> 0"
    and "prepare_runs s' = prepare_runs s + (if prepared s then 0 else 1)"
proof -
  let ?g0 = "\<lparr>m_coutBuf = 0, m_cerrBuf = 0\<rparr>"
  let ?s1 = "if \<not> prepared s then (prepare_console True s)\<lparr>prepared := True\<rparr> else s"
  from assms obtain g1 s2 where a: "install_cout ?g0 ?s1 = Some (g1, s2)"
    and b: "install_cerr g1 s2 = Some (g, s')"
    by (auto simp add: con_transcoder_ctor_def Let_def split: option.splits)
  note ia = install_cout_Some [OF a]
  note ib = install_cerr_Some [OF b]
  have f: "cout_rdbuf ?s1 = cout_rdbuf s" "cerr_rdbuf ?s1 = cerr_rdbuf s" "prepared ?s1"
    "\<And>p. is_utf8_on_wide_out ?s1 p = is_utf8_on_wide_out s p"
    "count_list (calls ?s1) Setmode_stdout =
       count_list (calls s) Setmode_stdout + (if prepared s then 0 else 1)"
    by (simp_all add: prepare_console_def is_utf8_on_wide_out_def)
  from ia(3) ib(3) f(3) show "prepared s'" by simp
  from ia(1) ib(2,8) show "is_utf8_on_wide_out s' (cout_rdbuf s')" by simp
  from ib(1) show "is_utf8_on_wide_out s' (cerr_rdbuf s')" .
  from ia(7) ib(7) f(5) show "prepare_runs s' = prepare_runs s + (if prepared s then 0 else 1)"
    by (simp add: prepare_runs_def)
  have cout_old: "m_coutBuf g = 0 \<and> cout_rdbuf s' = cout_rdbuf s"
    if "is_utf8_on_wide_out ?s1 (cout_rdbuf ?s1)"
    using ia(5) [OF that] ib(2,4) f(1) by simp
  have cout_new: "m_coutBuf g = cout_rdbuf s \<and> cout_rdbuf s \<noteq> 0"
    if "\<not> is_utf8_on_wide_out ?s1 (cout_rdbuf ?s1)"
    using ia(6) [OF that] ib(4) f(1) by simp
  have cerr_old: "m_cerrBuf g = 0 \<and> cerr_rdbuf s' = cerr_rdbuf s"
    if "is_utf8_on_wide_out s2 (cerr_rdbuf s2)"
    using ib(5) [OF that] ia(2,4) f(2) by simp
  have cerr_new: "m_cerrBuf g = cerr_rdbuf s \<and> cerr_rdbuf s \<noteq> 0"
    if "\<not> is_utf8_on_wide_out s2 (cerr_rdbuf s2)"
    using ib(6) [OF that] ia(2) f(2) by simp
  from cout_old cout_new
  show "m_coutBuf g = 0 \<and> cout_rdbuf s' = cout_rdbuf s \<or>
      m_coutBuf g = cout_rdbuf s \<and> cout_rdbuf s \<noteq> 0"
    by blast
  from cerr_old cerr_new
  show "m_cerrBuf g = 0 \<and> cerr_rdbuf s' = cerr_rdbuf s \<or>
      m_cerrBuf g = cerr_rdbuf s \<and> cerr_rdbuf s \<noteq> 0"
    by blast
  show "m_coutBuf g = 0 \<and> cout_rdbuf s' = cout_rdbuf s"
    if "is_utf8_on_wide_out s (cout_rdbuf s)"
    using cout_old that f(1,4) by simp
  show "m_cerrBuf g = 0 \<and> cerr_rdbuf s' = cerr_rdbuf s"
    if c: "is_utf8_on_wide_out s (cerr_rdbuf s)"
  proof -
    from c f(4) have "is_utf8_on_wide_out ?s1 (cerr_rdbuf s)" by simp
    from ia(8) [OF this] ia(2) f(2) have "is_utf8_on_wide_out s2 (cerr_rdbuf s2)" by simp
    then show ?thesis by (rule cerr_old)
  qed
qed

subsection \<open>Constructor and destructor on given processes\<close>

lemma ctor_startup:
  "con_transcoder_ctor True startup = Some (\<lparr>m_coutBuf = 1, m_cerrBuf = 2\<rparr>, redirected)"
  by (simp add: con_transcoder_ctor_def install_cout_def install_cerr_def
      new_utf8_on_wide_out_def is_utf8_on_wide_out_def prepare_console_def startup_def
      redirected_def Let_def)

lemma ctor_again:
  assumes "prepared s" "is_utf8_on_wide_out s (cout_rdbuf s)" "is_utf8_on_wide_out s (cerr_rdbuf s)"
  shows "con_transcoder_ctor True s = Some (\<lparr>m_coutBuf = 0, m_cerrBuf = 0\<rparr>, s)"
  using assms by (simp add: con_transcoder_ctor_def install_cout_def install_cerr_def)

lemma dtor_empty: "con_transcoder_dtor \<lparr>m_coutBuf = 0, m_cerrBuf = 0\<rparr> s = s"
  by (simp add: con_transcoder_dtor_def)

lemma dtor_rdbuf:
  "cout_rdbuf (con_transcoder_dtor g s) = (if m_coutBuf g \<noteq> 0 then m_coutBuf g else cout_rdbuf s)"
  "cerr_rdbuf (con_transcoder_dtor g s) = (if m_cerrBuf g \<noteq> 0 then m_cerrBuf g else cerr_rdbuf s)"
  by (simp_all add: con_transcoder_dtor_def Let_def)

lemma ctor_defined:
  assumes "cout_rdbuf s \<noteq> 0" "heap s (cout_rdbuf s) \<noteq> None"
    and "cerr_rdbuf s \<noteq> 0" "heap s (cerr_rdbuf s) \<noteq> None"
  shows "con_transcoder_ctor True s \<noteq> None"
  using assms
  by (auto simp add: con_transcoder_ctor_def install_cout_def install_cerr_def
      new_utf8_on_wide_out_def prepare_console_def is_utf8_on_wide_out_def Let_def
      split: option.splits)

subsection \<open>A guard inside a guard\<close>

text \<open>
  Claim C7. With \<open>translate\<close>: where the buffer of a stream is already a
  \<open>utf8_on_wide_out\<close>, the constructor installs nothing for that stream, so the guard
  remembers nothing for it and the buffer of the stream stays. After a guard \<open>outer\<close> has
  been constructed, a second constructor gives a guard that remembers nothing and leaves
  the whole process as it is (no second decoder is made); the destructor of that inner
  guard leaves the process as it is; and the destructor of \<open>outer\<close> then sets the buffers
  of \<open>std::cout\<close> and \<open>std::cerr\<close> back to what they were before \<open>outer\<close>. The
  constructor does return a guard wherever \<open>std::cout\<close> and \<open>std::cerr\<close> have buffers
  that exist.
\<close>

theorem nested_guard_installs_nothing:
  "(con_transcoder_ctor True s = Some (g, s') \<longrightarrow>
      (is_utf8_on_wide_out s (cout_rdbuf s) \<longrightarrow> m_coutBuf g = 0 \<and> cout_rdbuf s' = cout_rdbuf s) \<and>
      (is_utf8_on_wide_out s (cerr_rdbuf s) \<longrightarrow> m_cerrBuf g = 0 \<and> cerr_rdbuf s' = cerr_rdbuf s)) \<and>
   (con_transcoder_ctor True s0 = Some (outer, s1) \<longrightarrow>
      con_transcoder_ctor True s1 = Some (\<lparr>m_coutBuf = 0, m_cerrBuf = 0\<rparr>, s1) \<and>
      con_transcoder_dtor \<lparr>m_coutBuf = 0, m_cerrBuf = 0\<rparr> s1 = s1 \<and>
      cout_rdbuf (con_transcoder_dtor outer s1) = cout_rdbuf s0 \<and>
      cerr_rdbuf (con_transcoder_dtor outer s1) = cerr_rdbuf s0) \<and>
   (cout_rdbuf s0 \<noteq> 0 \<and> heap s0 (cout_rdbuf s0) \<noteq> None \<and>
    cerr_rdbuf s0 \<noteq> 0 \<and> heap s0 (cerr_rdbuf s0) \<noteq> None \<longrightarrow>
      con_transcoder_ctor True s0 \<noteq> None)"
proof -
  have a: "m_coutBuf g = 0 \<and> cout_rdbuf s' = cout_rdbuf s"
    if "con_transcoder_ctor True s = Some (g, s')" "is_utf8_on_wide_out s (cout_rdbuf s)"
    using ctor_translating(4) [OF that] .
  have b: "m_cerrBuf g = 0 \<and> cerr_rdbuf s' = cerr_rdbuf s"
    if "con_transcoder_ctor True s = Some (g, s')" "is_utf8_on_wide_out s (cerr_rdbuf s)"
    using ctor_translating(5) [OF that] .
  have c: "con_transcoder_ctor True s1 = Some (\<lparr>m_coutBuf = 0, m_cerrBuf = 0\<rparr>, s1) \<and>
      con_transcoder_dtor \<lparr>m_coutBuf = 0, m_cerrBuf = 0\<rparr> s1 = s1 \<and>
      cout_rdbuf (con_transcoder_dtor outer s1) = cout_rdbuf s0 \<and>
      cerr_rdbuf (con_transcoder_dtor outer s1) = cerr_rdbuf s0"
    if "con_transcoder_ctor True s0 = Some (outer, s1)"
  proof -
    note t = ctor_translating [OF that]
    from t(1-3) have "con_transcoder_ctor True s1 = Some (\<lparr>m_coutBuf = 0, m_cerrBuf = 0\<rparr>, s1)"
      by (rule ctor_again)
    moreover have "con_transcoder_dtor \<lparr>m_coutBuf = 0, m_cerrBuf = 0\<rparr> s1 = s1"
      by (rule dtor_empty)
    moreover from t(6) have "cout_rdbuf (con_transcoder_dtor outer s1) = cout_rdbuf s0"
      by (auto simp add: dtor_rdbuf)
    moreover from t(7) have "cerr_rdbuf (con_transcoder_dtor outer s1) = cerr_rdbuf s0"
      by (auto simp add: dtor_rdbuf)
    ultimately show ?thesis by blast
  qed
  have d: "con_transcoder_ctor True s0 \<noteq> None"
    if "cout_rdbuf s0 \<noteq> 0 \<and> heap s0 (cout_rdbuf s0) \<noteq> None \<and>
      cerr_rdbuf s0 \<noteq> 0 \<and> heap s0 (cerr_rdbuf s0) \<noteq> None"
    using that by (intro ctor_defined) simp_all
  from a b c d show ?thesis by blast
qed

theorem nested_guard_installs_nothing_witness:
  "con_transcoder_ctor True redirected = Some (\<lparr>m_coutBuf = 0, m_cerrBuf = 0\<rparr>, redirected) \<and>
   is_utf8_on_wide_out redirected (cout_rdbuf redirected) \<and>
   (m_coutBuf \<lparr>m_coutBuf = 0, m_cerrBuf = 0\<rparr> = 0 \<and> cout_rdbuf redirected = cout_rdbuf redirected) \<and>
   is_utf8_on_wide_out redirected (cerr_rdbuf redirected) \<and>
   (m_cerrBuf \<lparr>m_coutBuf = 0, m_cerrBuf = 0\<rparr> = 0 \<and> cerr_rdbuf redirected = cerr_rdbuf redirected) \<and>
   con_transcoder_ctor True startup = Some (\<lparr>m_coutBuf = 1, m_cerrBuf = 2\<rparr>, redirected) \<and>
   con_transcoder_dtor \<lparr>m_coutBuf = 0, m_cerrBuf = 0\<rparr> redirected = redirected \<and>
   cout_rdbuf (con_transcoder_dtor \<lparr>m_coutBuf = 1, m_cerrBuf = 2\<rparr> redirected) = 1 \<and>
   cerr_rdbuf (con_transcoder_dtor \<lparr>m_coutBuf = 1, m_cerrBuf = 2\<rparr> redirected) = 2 \<and>
   (cout_rdbuf startup \<noteq> 0 \<and> heap startup (cout_rdbuf startup) \<noteq> None \<and>
    cerr_rdbuf startup \<noteq> 0 \<and> heap startup (cerr_rdbuf startup) \<noteq> None) \<and>
   con_transcoder_ctor True startup \<noteq> None"
proof -
  let ?e = "\<lparr>m_coutBuf = 0, m_cerrBuf = 0\<rparr>"
  let ?o = "\<lparr>m_coutBuf = 1, m_cerrBuf = 2\<rparr>"
  note t = nested_guard_installs_nothing [of redirected ?e redirected startup ?o redirected]
  have h1: "con_transcoder_ctor True startup = Some (?o, redirected)" by (rule ctor_startup)
  from t h1 have h2: "con_transcoder_ctor True redirected = Some (?e, redirected)" by blast
  have h3: "is_utf8_on_wide_out redirected (cout_rdbuf redirected)"
    by (simp add: is_utf8_on_wide_out_def redirected_def)
  have h4: "is_utf8_on_wide_out redirected (cerr_rdbuf redirected)"
    by (simp add: is_utf8_on_wide_out_def redirected_def)
  from t h2 h3 have c1: "m_coutBuf ?e = 0 \<and> cout_rdbuf redirected = cout_rdbuf redirected" by blast
  from t h2 h4 have c2: "m_cerrBuf ?e = 0 \<and> cerr_rdbuf redirected = cerr_rdbuf redirected" by blast
  from t h1 have c3: "con_transcoder_dtor ?e redirected = redirected" by blast
  from t h1 have c4: "cout_rdbuf (con_transcoder_dtor ?o redirected) = 1"
    by (simp add: startup_def)
  from t h1 have c5: "cerr_rdbuf (con_transcoder_dtor ?o redirected) = 2"
    by (simp add: startup_def)
  have h5: "cout_rdbuf startup \<noteq> 0 \<and> heap startup (cout_rdbuf startup) \<noteq> None \<and>
      cerr_rdbuf startup \<noteq> 0 \<and> heap startup (cerr_rdbuf startup) \<noteq> None"
    by (simp add: startup_def)
  from t h5 have c6: "con_transcoder_ctor True startup \<noteq> None" by blast
  show ?thesis by (intro conjI h2 h3 c1 h4 c2 h1 c3 c4 c5 h5 c6)
qed

subsection \<open>Programs of guards\<close>

lemma dtor_keeps:
  "prepared (con_transcoder_dtor g s) = prepared s"
  "prepare_runs (con_transcoder_dtor g s) = prepare_runs s"
  by (simp_all add: con_transcoder_dtor_def prepare_runs_def Let_def)

lemma run_op_prepare:
  assumes "run_op True op (gs, s) = Some (gs', s')"
  shows "(prepared s \<longrightarrow> prepared s') \<and>
    prepare_runs s' = prepare_runs s + (if prepared s' \<and> \<not> prepared s then 1 else 0) \<and>
    (op = Construct \<longrightarrow> prepared s')"
proof (cases op)
  case Construct
  with assms obtain g where "con_transcoder_ctor True s = Some (g, s')"
    by (auto split: option.splits)
  from ctor_translating(1,8) [OF this] show ?thesis by simp
next
  case (Destroy i)
  with assms show ?thesis by (auto simp add: dtor_keeps split: if_splits)
next
  case (Move_construct i)
  with assms show ?thesis by (auto split: if_splits prod.splits)
next
  case (Move_assign i j)
  with assms show ?thesis by (auto split: if_splits prod.splits)
qed

lemma run_ops_prepare:
  "run_ops True ops (gs, s) = Some (gs', s') \<Longrightarrow>
   (prepared s \<longrightarrow> prepared s') \<and>
   prepare_runs s' = prepare_runs s + (if prepared s' \<and> \<not> prepared s then 1 else 0) \<and>
   (Construct \<in> set ops \<longrightarrow> prepared s')"
proof (induction ops arbitrary: gs s)
  case Nil
  then show ?case by simp
next
  case (Cons op ops)
  from Cons.prems obtain gs1 s1 where a: "run_op True op (gs, s) = Some (gs1, s1)"
    and b: "run_ops True ops (gs1, s1) = Some (gs', s')"
    by (auto split: option.splits)
  note p = run_op_prepare [OF a] and q = Cons.IH [OF b]
  from p q have "prepared s \<longrightarrow> prepared s'" by blast
  moreover from p q
  have "prepare_runs s' = prepare_runs s + (if prepared s' \<and> \<not> prepared s then 1 else 0)"
    by (cases "prepared s"; cases "prepared s1"; cases "prepared s'") simp_all
  moreover from p q have "Construct \<in> set (op # ops) \<longrightarrow> prepared s'" by auto
  ultimately show ?case by blast
qed

lemma ctor_redirected:
  "con_transcoder_ctor True redirected = Some (\<lparr>m_coutBuf = 0, m_cerrBuf = 0\<rparr>, redirected)"
  by (rule ctor_again) (simp_all add: redirected_def is_utf8_on_wide_out_def)

subsection \<open>The console is prepared once\<close>

text \<open>
  Claim C8. With \<open>translate\<close>, let a program construct, move and destroy guards in any
  order and number. The body of \<open>prepare_console\<close> runs once more than before when
  \<open>prepared\<close> was not set at the beginning and is set at the end, and not at all otherwise:
  it runs at most once, and never again once \<open>prepared\<close> is set. \<open>prepared\<close> is never
  cleared, and it is set after the first construction.
\<close>

theorem prepare_console_at_most_once:
  assumes "run_ops True ops (gs, s) = Some (gs', s')"
  shows "prepare_runs s' = prepare_runs s + (if prepared s' \<and> \<not> prepared s then 1 else 0) \<and>
         prepare_runs s' \<le> Suc (prepare_runs s) \<and>
         (prepared s \<longrightarrow> prepared s' \<and> prepare_runs s' = prepare_runs s) \<and>
         (Construct \<in> set ops \<longrightarrow> prepared s')"
  using run_ops_prepare [OF assms] by auto

theorem prepare_console_at_most_once_witness:
  "run_ops True [Construct, Construct, Destroy 1, Construct] ([], startup) =
     Some ([\<lparr>m_coutBuf = 1, m_cerrBuf = 2\<rparr>, \<lparr>m_coutBuf = 0, m_cerrBuf = 0\<rparr>], redirected) \<and>
   prepare_runs startup = 0 \<and> \<not> prepared startup \<and>
   prepare_runs redirected = 1 \<and> prepared redirected \<and>
   Construct \<in> set [Construct, Construct, Destroy 1, Construct] \<and>
   run_ops True [Construct, Destroy 0] ([], redirected) = Some ([], redirected) \<and>
   (prepared redirected \<and> prepare_runs redirected = prepare_runs redirected)"
proof -
  let ?ops = "[Construct, Construct, Destroy 1, Construct]"
  have h1: "run_ops True ?ops ([], startup) =
      Some ([\<lparr>m_coutBuf = 1, m_cerrBuf = 2\<rparr>, \<lparr>m_coutBuf = 0, m_cerrBuf = 0\<rparr>], redirected)"
    by (simp add: ctor_startup ctor_redirected dtor_empty)
  have h2: "run_ops True [Construct, Destroy 0] ([], redirected) = Some ([], redirected)"
    by (simp add: ctor_redirected dtor_empty)
  have s: "prepare_runs startup = 0" "\<not> prepared startup"
    by (simp_all add: prepare_runs_def startup_def)
  have h3: "prepared redirected" by (simp add: redirected_def)
  note t1 = prepare_console_at_most_once [OF h1]
  note t2 = prepare_console_at_most_once [OF h2]
  have m: "Construct \<in> set ?ops" by simp
  from t1 m have c1: "prepared redirected" by blast
  from t1 s c1 have c2: "prepare_runs redirected = 1" by simp
  from t2 h3 have c3: "prepared redirected \<and> prepare_runs redirected = prepare_runs redirected"
    by blast
  show ?thesis by (intro conjI h1 s c2 c1 m h2 c3)
qed

subsection \<open>Moving a guard\<close>

text \<open>
  Claim C1, which the code does not meet. The defaulted move constructor copies the two
  pointers and leaves them in the object moved from. On a process as it starts, with
  \<open>translate\<close>, a guard is constructed, a second guard is move-constructed from it, and
  the first, moved-from guard is destroyed. After the move both guards remember the
  original buffers \<open>1\<close> and \<open>2\<close>, and the streams have the decoders \<open>5\<close> and \<open>6\<close>. The
  destructor of the moved-from guard sets the buffers of \<open>std::cout\<close> and \<open>std::cerr\<close>
  back to \<open>1\<close> and \<open>2\<close>, while the guard that received the move is alive and
  remembers the same two buffers.
\<close>

theorem moved_from_guard_restores:
  "move_construct \<lparr>m_coutBuf = 1, m_cerrBuf = 2\<rparr> =
     (\<lparr>m_coutBuf = 1, m_cerrBuf = 2\<rparr>, \<lparr>m_coutBuf = 1, m_cerrBuf = 2\<rparr>) \<and>
   map_option (\<lambda>(gs, s). (gs, cout_rdbuf s, cerr_rdbuf s))
     (run_ops True [Construct, Move_construct 0] ([], startup)) =
     Some ([\<lparr>m_coutBuf = 1, m_cerrBuf = 2\<rparr>, \<lparr>m_coutBuf = 1, m_cerrBuf = 2\<rparr>], 5, 6) \<and>
   map_option (\<lambda>(gs, s). (gs, cout_rdbuf s, cerr_rdbuf s))
     (run_ops True [Construct, Move_construct 0, Destroy 0] ([], startup)) =
     Some ([\<lparr>m_coutBuf = 1, m_cerrBuf = 2\<rparr>], 1, 2)"
proof -
  have a: "move_construct \<lparr>m_coutBuf = 1, m_cerrBuf = 2\<rparr> =
     (\<lparr>m_coutBuf = 1, m_cerrBuf = 2\<rparr>, \<lparr>m_coutBuf = 1, m_cerrBuf = 2\<rparr>)"
    by (simp add: move_construct_def)
  have r: "cout_rdbuf redirected = 5" "cerr_rdbuf redirected = 6"
    by (simp_all add: redirected_def)
  have b: "map_option (\<lambda>(gs, s). (gs, cout_rdbuf s, cerr_rdbuf s))
     (run_ops True [Construct, Move_construct 0] ([], startup)) =
     Some ([\<lparr>m_coutBuf = 1, m_cerrBuf = 2\<rparr>, \<lparr>m_coutBuf = 1, m_cerrBuf = 2\<rparr>], 5, 6)"
    by (simp add: ctor_startup move_construct_def r)
  have c: "map_option (\<lambda>(gs, s). (gs, cout_rdbuf s, cerr_rdbuf s))
     (run_ops True [Construct, Move_construct 0, Destroy 0] ([], startup)) =
     Some ([\<lparr>m_coutBuf = 1, m_cerrBuf = 2\<rparr>], 1, 2)"
    by (simp add: ctor_startup move_construct_def con_transcoder_dtor_def)
  show ?thesis by (intro conjI a b c)
qed

subsection \<open>The constructor without translation\<close>

text \<open>
  Claim C2, which the code does not meet. Without \<open>translate\<close> the constructor returns
  before it calls \<open>prepare_console\<close>: it replaces no buffer, and it leaves the whole
  process as it is. On a process whose locale has been set to \<open>en_US.UTF-8\<close>,
  \<open>std::wcout\<close> and \<open>std::wcerr\<close> still have the locale \<open>C\<close> after the constructor, while
  \<open>prepare_console\<close>, had it been called, would have imbued both with \<open>en_US.UTF-8\<close>.
\<close>

theorem non_translating_ctor_skips_prepare_console:
  "con_transcoder_ctor False posix_startup =
     Some (\<lparr>m_coutBuf = 0, m_cerrBuf = 0\<rparr>, posix_startup) \<and>
   c_locale posix_startup = ''en_US.UTF-8'' \<and>
   wcout_locale posix_startup = ''C'' \<and> wcerr_locale posix_startup = ''C'' \<and>
   wcout_locale (prepare_console False posix_startup) = ''en_US.UTF-8'' \<and>
   wcerr_locale (prepare_console False posix_startup) = ''en_US.UTF-8''"
proof -
  have a: "con_transcoder_ctor False posix_startup =
      Some (\<lparr>m_coutBuf = 0, m_cerrBuf = 0\<rparr>, posix_startup)"
    by (simp add: con_transcoder_ctor_def)
  have b: "c_locale posix_startup = ''en_US.UTF-8''"
    "wcout_locale posix_startup = ''C''" "wcerr_locale posix_startup = ''C''"
    by (simp_all add: posix_startup_def startup_def)
  have c: "wcout_locale (prepare_console False posix_startup) = ''en_US.UTF-8''"
    "wcerr_locale (prepare_console False posix_startup) = ''en_US.UTF-8''"
    by (simp_all add: prepare_console_def Let_def b)
  show ?thesis by (intro conjI a b c)
qed

end
